theory Spec2Isabelle
  imports Main "HOL-Library.Word" "HOL-Library.AList" "HOL-Library.Multiset"
begin

section \<open>Bytes and big-endian integers\<close>

type_synonym byte = "8 word"
type_synonym bytes = "byte list"

text \<open>The 256 positions of a vector, of a child table and of a leaf, in increasing order.\<close>

definition all_bytes :: "byte list" where
  "all_bytes = map of_nat [0..<256]"

text \<open>
  The big-endian reading of a byte string, as \<open>binary.BigEndian.Uint32\<close> and the
  other readers of \<open>encoding/binary\<close> compute it.
\<close>

definition be_nat :: "bytes \<Rightarrow> nat" where
  "be_nat bs = foldl (\<lambda>acc b. acc * 256 + unat b) 0 bs"

text \<open>The \<open>n\<close> low-order bytes of a number, most significant first.\<close>

definition be_bytes :: "nat \<Rightarrow> nat \<Rightarrow> bytes" where
  "be_bytes n x = map (\<lambda>i. of_nat (x div 256 ^ (n - 1 - i))) [0..<n]"

text \<open>\<open>binary.BigEndian.Uint32(b)\<close> on a slice of four bytes.\<close>

definition BigEndian_Uint32 :: "bytes \<Rightarrow> 32 word" where
  "BigEndian_Uint32 b = of_nat (be_nat (take 4 b))"

text \<open>The four bytes \<open>binary.BigEndian.PutUint32\<close> writes.\<close>

definition BigEndian_PutUint32 :: "32 word \<Rightarrow> bytes" where
  "BigEndian_PutUint32 x = be_bytes 4 (unat x)"

text \<open>
  Go's \<open>copy(dst[lo:hi], src)\<close> on a byte array \<open>dst\<close>: the first
  \<open>min (hi - lo) (len src)\<close> bytes of \<open>src\<close> replace the bytes of \<open>dst\<close>
  from position \<open>lo\<close> on; the length of \<open>dst\<close> does not change.
\<close>

definition copy_into :: "bytes \<Rightarrow> nat \<Rightarrow> nat \<Rightarrow> bytes \<Rightarrow> bytes" where
  "copy_into dst lo hi src =
     (let n = min (hi - lo) (length src)
      in take lo dst @ take n src @ drop (lo + n) dst)"

text \<open>The slice \<open>b[lo:hi]\<close> of a byte string.\<close>

definition slice :: "bytes \<Rightarrow> nat \<Rightarrow> nat \<Rightarrow> bytes" where
  "slice b lo hi = take (hi - lo) (drop lo b)"

text \<open>
  \<open>bytes.Compare\<close>: lexicographic comparison of two byte strings, giving
  \<open>-1\<close>, \<open>0\<close> or \<open>1\<close>.
\<close>

fun bytes_Compare :: "bytes \<Rightarrow> bytes \<Rightarrow> int" where
  "bytes_Compare [] [] = 0"
| "bytes_Compare [] (y # ys) = - 1"
| "bytes_Compare (x # xs) [] = 1"
| "bytes_Compare (x # xs) (y # ys) =
     (if x < y then - 1 else if y < x then 1 else bytes_Compare xs ys)"

section \<open>Vector commitment (package commit)\<close>

text \<open>
  Modelled from the spec: the sources of package \<open>commit\<close> are not part of the
  repository snapshot (only its tests are), so the field/group adapter follows section 3
  and section 4.1 of the specification. The scheme works over a prime field \<open>F\<close> and an
  additive group \<open>G\<close> of prime order \<open>|F|\<close>. A group of prime order is cyclic, so up
  to isomorphism \<open>G\<close> is the additive group of residues modulo \<open>fmod\<close>; a group
  element is represented by its residue, a scalar by any integer of its residue class.
  The 256 public generators \<open>H\<^sub>0 \<dots> H\<^sub>2\<^sub>5\<^sub>5\<close> are the table \<open>gens\<close>.
  \<open>to_scalar\<close> is the projection \<open>ToScalar\<close> of a commitment into the field and
  \<open>leaf_rule\<close> the rule combining the two half commitments of a leaf (with its stem)
  into the leaf commitment; the specification leaves both to the implementation.
\<close>

record scheme =
  fmod :: int
  gens :: "byte \<Rightarrow> int"
  to_scalar :: "int \<Rightarrow> int"
  leaf_rule :: "bytes \<Rightarrow> int \<Rightarrow> int \<Rightarrow> int"

text \<open>Modelled from the spec: \<open>Identity()\<close>, the neutral element of \<open>G\<close>.\<close>

definition Identity :: int where
  "Identity = 0"

text \<open>Modelled from the spec: addition in \<open>G\<close>.\<close>

definition gadd :: "scheme \<Rightarrow> int \<Rightarrow> int \<Rightarrow> int" where
  "gadd sch a b = (a + b) mod fmod sch"

text \<open>Modelled from the spec: the product \<open>s \<cdot> g\<close> of a scalar and a group element.\<close>

definition smul :: "scheme \<Rightarrow> int \<Rightarrow> int \<Rightarrow> int" where
  "smul sch s g = (s * g) mod fmod sch"

text \<open>Modelled from the spec: subtraction in \<open>F\<close>.\<close>

definition fsub :: "scheme \<Rightarrow> int \<Rightarrow> int \<Rightarrow> int" where
  "fsub sch a b = (a - b) mod fmod sch"

text \<open>
  Modelled from the spec: \<open>Commit(v) = \<Sigma>\<^sub>i v\<^sub>i \<cdot> H\<^sub>i\<close> for a vector of 256 scalars
  (section 4.1). A vector \<open>[VectorSize]Value\<close> is a function of the position.
\<close>

definition Commit :: "scheme \<Rightarrow> (byte \<Rightarrow> int) \<Rightarrow> int" where
  "Commit sch v = foldl (\<lambda>acc i. gadd sch acc (smul sch (v i) (gens sch i))) Identity all_bytes"

text \<open>
  Modelled from the spec: \<open>Update(C, i, v_old, v_new)\<close> returns
  \<open>C + (v_new - v_old) \<cdot> H\<^sub>i\<close> (section 4.1).
\<close>

definition Update :: "scheme \<Rightarrow> int \<Rightarrow> byte \<Rightarrow> int \<Rightarrow> int \<Rightarrow> int" where
  "Update sch C i v_old v_new = gadd sch C (smul sch (fsub sch v_new v_old) (gens sch i))"


text \<open>
  Modelled from the spec: \<open>Compress(C)\<close>, the serialization of a group element to
  32 bytes; the all-zero serialization denotes the identity (section 3). The residue is
  written big-endian.
\<close>

definition Compress :: "int \<Rightarrow> bytes" where
  "Compress c = be_bytes 32 (nat c)"

section \<open>Verkle trie (package trie)\<close>

text \<open>
  Keys and values are the 32-byte arrays \<open>trie.Key\<close> and \<open>trie.Value\<close>. The first 31
  bytes of a key are its stem, the last byte is its sub-index.
\<close>

type_synonym Key = bytes
type_synonym Value = bytes

definition zero_value :: Value where
  "zero_value = replicate 32 0"

definition stem :: "Key \<Rightarrow> bytes" where
  "stem k = take 31 k"

definition sub_index :: "Key \<Rightarrow> byte" where
  "sub_index k = k ! 31"

text \<open>
  Modelled from the spec: the sources of package \<open>trie\<close> are not part of the
  repository snapshot (only its tests are). A node is one of the three variants of
  section 3: \<open>Empty\<close>, an \<open>Inner\<close> node with 256 child slots, or a \<open>Leaf\<close> with a
  31-byte stem and 256 values indexed by the sub-index.
\<close>

datatype node = Empty | Inner "byte \<Rightarrow> node" | Leaf bytes "byte \<Rightarrow> Value"

definition no_children :: "byte \<Rightarrow> node" where
  "no_children = (\<lambda>_. Empty)"

definition no_values :: "byte \<Rightarrow> Value" where
  "no_values = (\<lambda>_. zero_value)"

text \<open>
  Modelled from the spec: insertion rule 1 creates a leaf with the stem of the key and
  the single value at the sub-index of the key.
\<close>

definition new_leaf :: "Key \<Rightarrow> Value \<Rightarrow> node" where
  "new_leaf k v = Leaf (stem k) (no_values(sub_index k := v))"

text \<open>
  Modelled from the spec: insertion rule 3, the split of a leaf \<open>old\<close> with stem
  \<open>so\<close> by a key of another stem \<open>sn\<close>, for which the leaf \<open>new\<close> was made. From
  depth \<open>d\<close> on, one fresh inner node is inserted per byte the two stems share; the
  deepest new inner node holds both leaves in the slots of the first byte where the
  stems differ.
\<close>

function split_leaf :: "bytes \<Rightarrow> node \<Rightarrow> bytes \<Rightarrow> node \<Rightarrow> nat \<Rightarrow> node" where
  "split_leaf so old sn new d =
     (if d < 31 \<and> so ! d = sn ! d
      then Inner (no_children(sn ! d := split_leaf so old sn new (Suc d)))
      else Inner (no_children(so ! d := old, sn ! d := new)))"
  by pat_completeness auto
termination
  by (relation "measure (\<lambda>(so, old, sn, new, d). 31 - d)") auto

declare split_leaf.simps [simp del]

text \<open>
  Modelled from the spec: navigation (section 4.3). At level \<open>d\<close> the child index is
  the byte \<open>k[d]\<close>; the descent ends at an empty slot or at a leaf, whose stem is
  matched against the key.
\<close>

primrec node_get :: "node \<Rightarrow> Key \<Rightarrow> nat \<Rightarrow> Value" where
  "node_get Empty k d = zero_value"
| "node_get (Inner cs) k d = node_get (cs (k ! d)) k (Suc d)"
| "node_get (Leaf st vs) k d = (if st = stem k then vs (sub_index k) else zero_value)"

text \<open>
  Modelled from the spec: the insertion rules of section 4.3. An empty slot receives a
  new leaf (rule 1), a leaf of the same stem is written at the sub-index (rule 2), a
  leaf of another stem is split (rule 3), and an inner node passes the key on to the
  child of the next byte (rule 4).
\<close>

primrec node_set :: "node \<Rightarrow> Key \<Rightarrow> nat \<Rightarrow> Value \<Rightarrow> node" where
  "node_set Empty k d v = new_leaf k v"
| "node_set (Inner cs) k d v = Inner (cs(k ! d := node_set (cs (k ! d)) k (Suc d) v))"
| "node_set (Leaf st vs) k d v =
     (if st = stem k then Leaf st (vs(sub_index k := v))
      else split_leaf st (Leaf st vs) (stem k) (new_leaf k v) d)"

text \<open>
  Modelled from the spec: a value is interpreted as two field elements by splitting
  the 32 bytes at the 16-byte boundary and reducing each half into \<open>F\<close> (section 4.2).
\<close>

definition low_half :: "scheme \<Rightarrow> Value \<Rightarrow> int" where
  "low_half sch v = int (be_nat (take 16 v)) mod fmod sch"

definition high_half :: "scheme \<Rightarrow> Value \<Rightarrow> int" where
  "high_half sch v = int (be_nat (drop 16 v)) mod fmod sch"

text \<open>
  Modelled from the spec: the commitment of a node (sections 3 and 4.2). An empty node
  commits to the identity; an inner node to the vector of the scalarized commitments
  of its children; a leaf to the combination, by the rule of the scheme, of the
  commitments to its two vectors of half values. The commitment cache is an
  optimisation that leaves the value unchanged (invariant I3) and is not modelled.
\<close>

primrec node_commit :: "scheme \<Rightarrow> node \<Rightarrow> int" where
  "node_commit sch Empty = Identity"
| "node_commit sch (Inner cs) = Commit sch (\<lambda>i. to_scalar sch (node_commit sch (cs i)))"
| "node_commit sch (Leaf st vs) =
     leaf_rule sch st (Commit sch (\<lambda>i. low_half sch (vs i)))
                      (Commit sch (\<lambda>i. high_half sch (vs i)))"

text \<open>
  Modelled from the spec: the trie owns its root; \<open>&Trie{}\<close> has no root node. The
  first \<open>Set\<close> makes the root an inner node (the test
  \<open>TestTrie_SettingASingleValueProducesAnInnerNode\<close>).
\<close>

record Trie =
  root :: node

definition empty_trie :: Trie where
  "empty_trie = \<lparr>root = Empty\<rparr>"

definition trie_Get :: "Trie \<Rightarrow> Key \<Rightarrow> Value" where
  "trie_Get t k = node_get (root t) k 0"

definition trie_Set :: "Trie \<Rightarrow> Key \<Rightarrow> Value \<Rightarrow> Trie" where
  "trie_Set t k v =
     (case root t of
        Empty \<Rightarrow> t\<lparr>root := node_set (Inner no_children) k 0 v\<rparr>
      | Inner cs \<Rightarrow> t\<lparr>root := node_set (Inner cs) k 0 v\<rparr>
      | Leaf st vs \<Rightarrow> t\<lparr>root := node_set (Leaf st vs) k 0 v\<rparr>)"

definition trie_Commit :: "scheme \<Rightarrow> Trie \<Rightarrow> int" where
  "trie_Commit sch t = node_commit sch (root t)"

text \<open>A sequence of writes applied to a fresh trie, first write first.\<close>

definition writes :: "(Key \<times> Value) list \<Rightarrow> Trie" where
  "writes ws = foldl (\<lambda>t (k, v). trie_Set t k v) empty_trie ws"


section \<open>In-memory state (memory/state.go)\<close>

type_synonym Address = bytes
type_synonym Hash = bytes
type_synonym Nonce = bytes
type_synonym Amount = "256 word"

text \<open>
  The state-key encoder, the code chunking and the hash function that
  \<open>memory/state.go\<close> calls are defined in files that are not part of the repository
  snapshot; they are parameters of the model.
\<close>

record env =
  getBasicDataKey :: "Address \<Rightarrow> Key"
  getCodeHashKey :: "Address \<Rightarrow> Key"
  getStorageKey :: "Address \<Rightarrow> Key \<Rightarrow> Key"
  getCodeChunkKey :: "Address \<Rightarrow> int \<Rightarrow> Key"
  Keccak256 :: "bytes \<Rightarrow> Hash"
  splitCode :: "bytes \<Rightarrow> Value list"
  EmptyCodeHash :: Hash

text \<open>
  Modelled from the spec: package \<open>amount\<close> is not part of the repository snapshot.
  An amount is an unsigned 256-bit integer; \<open>NewFromBytes\<close> reads it from big-endian
  bytes and \<open>Bytes32\<close> writes its 32 big-endian bytes (section 4.5: the balance is
  16 bytes, big-endian).
\<close>

definition amount_NewFromBytes :: "bytes \<Rightarrow> Amount" where
  "amount_NewFromBytes bs = of_nat (be_nat bs)"

definition amount_Bytes32 :: "Amount \<Rightarrow> bytes" where
  "amount_Bytes32 a = be_bytes 32 (unat a)"

datatype error =
    InvalidPartNumber int
  | InvalidMetadataLength nat
  | DataTooShort
  | InvalidDataLength int nat
  | CommitmentMismatch
  | NoArchivedState "64 word"
  | UnexpectedSnapshotType
  | ContainerFailure
  | Wrapped string error

record vtSnapshot =
  commitment :: bytes
  data :: bytes

text \<open>
  The interface \<open>backend.SnapshotData\<close>, as far as \<open>Restore\<close> uses it: the two
  accessors with their results.
\<close>

record SnapshotData =
  GetMetaData :: "error + bytes"
  GetPartData :: "int \<Rightarrow> error + bytes"

definition vtSnapshot_GetMetaData :: "vtSnapshot \<Rightarrow> error + bytes" where
  "vtSnapshot_GetMetaData s =
     (let meta = replicate (32 + 4) 0;
          meta = copy_into meta 0 32 (commitment s);
          meta = copy_into meta 32 36 (BigEndian_PutUint32 1)
      in Inr meta)"

definition vtSnapshot_GetPartData :: "vtSnapshot \<Rightarrow> int \<Rightarrow> error + bytes" where
  "vtSnapshot_GetPartData s partNumber =
     (if partNumber \<noteq> 0 then Inl (InvalidPartNumber partNumber) else Inr (data s))"

definition vtSnapshot_GetData :: "vtSnapshot \<Rightarrow> SnapshotData" where
  "vtSnapshot_GetData s =
     \<lparr>GetMetaData = vtSnapshot_GetMetaData s, GetPartData = vtSnapshot_GetPartData s\<rparr>"

text \<open>
  The archive. The Go map \<open>snapshots\<close> is an association list with one entry per
  block number; \<open>len\<close> is its length.
\<close>

record vtArchive =
  snapshots :: "(64 word \<times> vtSnapshot) list"
  maxBlock :: "64 word"
  hasBlocks :: bool
  maxSize :: int
  oldestBlock :: "64 word"

definition newVtArchive :: "int \<Rightarrow> vtArchive" where
  "newVtArchive m =
     \<lparr>snapshots = [], maxBlock = 0, hasBlocks = False, maxSize = m, oldestBlock = 0\<rparr>"

definition pruneOldest :: "vtArchive \<Rightarrow> vtArchive" where
  "pruneOldest a =
     (if length (snapshots a) = 0 then a
      else let a = a\<lparr>snapshots := AList.delete (oldestBlock a) (snapshots a)\<rparr>;
               newOldest = foldl (\<lambda>newOldest (block, _).
                                    if block < newOldest then block else newOldest)
                                 (maxBlock a) (snapshots a)
           in a\<lparr>oldestBlock := newOldest\<rparr>)"

definition addBlock :: "vtArchive \<Rightarrow> 64 word \<Rightarrow> vtSnapshot \<Rightarrow> vtArchive" where
  "addBlock a block snapshot =
     (let a = a\<lparr>snapshots := AList.update block snapshot (snapshots a)\<rparr>;
          a = (if \<not> hasBlocks a \<or> maxBlock a < block
               then a\<lparr>maxBlock := block, hasBlocks := True\<rparr> else a);
          a = (if \<not> hasBlocks a \<or> block < oldestBlock a \<or> oldestBlock a = 0
               then a\<lparr>oldestBlock := block\<rparr> else a)
      in if 0 < maxSize a \<and> maxSize a < int (length (snapshots a))
         then pruneOldest a else a)"

definition getBlock :: "vtArchive \<Rightarrow> 64 word \<Rightarrow> vtSnapshot option" where
  "getBlock a block = map_of (snapshots a) block"

record State =
  trie :: Trie
  archive :: vtArchive
  writtenSlots :: "Address \<rightharpoonup> (Key \<rightharpoonup> bool)"
  archiveMaxSize :: int

definition newState :: State where
  "newState =
     \<lparr>trie = empty_trie, archive = newVtArchive 1000, writtenSlots = Map.empty,
      archiveMaxSize = 1000\<rparr>"

subsection \<open>Account getters\<close>

definition GetBalance :: "env \<Rightarrow> State \<Rightarrow> Address \<Rightarrow> Amount" where
  "GetBalance env s addr =
     (let key = getBasicDataKey env addr;
          val = trie_Get (trie s) key
      in amount_NewFromBytes (slice val 16 32))"

definition GetNonce :: "env \<Rightarrow> State \<Rightarrow> Address \<Rightarrow> Nonce" where
  "GetNonce env s addr =
     (let key = getBasicDataKey env addr;
          val = trie_Get (trie s) key
      in slice val 8 16)"

definition GetCodeSize :: "env \<Rightarrow> State \<Rightarrow> Address \<Rightarrow> int" where
  "GetCodeSize env s addr =
     (let key = getBasicDataKey env addr;
          val = trie_Get (trie s) key
      in uint (BigEndian_Uint32 (slice val 4 8)))"

definition GetHash :: "scheme \<Rightarrow> State \<Rightarrow> Hash" where
  "GetHash sch s = Compress (trie_Commit sch (trie s))"

subsection \<open>Snapshots\<close>

text \<open>
  One probe of \<open>serializeTrie\<close>: the value under a key is read and entered into the
  map \<open>entries\<close> when it is not the zero value.
\<close>

definition probe :: "Trie \<Rightarrow> (Key \<times> Value) list \<Rightarrow> Key \<Rightarrow> (Key \<times> Value) list" where
  "probe t entries key =
     (let val = trie_Get t key
      in if val \<noteq> zero_value then AList.update key val entries else entries)"

text \<open>The body of the loop of \<open>serializeTrie\<close> over \<open>addrByte\<close>.\<close>

definition serialize_address :: "env \<Rightarrow> Trie \<Rightarrow> (Key \<times> Value) list \<Rightarrow> nat \<Rightarrow> (Key \<times> Value) list"
  where
  "serialize_address env t entries addrByte =
     (let addr = (replicate 20 0)[0 := of_nat addrByte];
          entries = probe t entries (getBasicDataKey env addr);
          entries = probe t entries (getCodeHashKey env addr);
          entries = foldl (\<lambda>entries slotByte.
                             probe t entries
                               (getStorageKey env addr ((replicate 32 0)[31 := of_nat slotByte])))
                          entries [0..<256];
          entries = foldl (\<lambda>entries chunk. probe t entries (getCodeChunkKey env addr (int chunk)))
                          entries [0..<1024]
      in entries)"

text \<open>The first half of \<open>serializeTrie\<close>: the map \<open>entries\<close> after the loops.\<close>

definition collect_entries :: "env \<Rightarrow> Trie \<Rightarrow> (Key \<times> Value) list" where
  "collect_entries env t = foldl (serialize_address env t) [] [0..<256]"

text \<open>
  \<open>serializeTrie\<close>. The records are written in the order of the association list; the
  Go map is iterated in an unspecified order.
\<close>

definition serializeTrie :: "env \<Rightarrow> State \<Rightarrow> error + bytes" where
  "serializeTrie env s =
     (let entries = collect_entries env (trie s)
      in Inr (BigEndian_PutUint32 (of_nat (length entries))
              @ concat (map (\<lambda>(k, v). k @ v) entries)))"

definition CreateSnapshot :: "scheme \<Rightarrow> env \<Rightarrow> State \<Rightarrow> error + vtSnapshot" where
  "CreateSnapshot sch env s =
     (let commitmentBytes = Compress (trie_Commit sch (trie s))
      in case serializeTrie env s of
           Inl err \<Rightarrow> Inl (Wrapped ''failed to serialize trie'' err)
         | Inr d \<Rightarrow> Inr \<lparr>commitment = commitmentBytes, data = d\<rparr>)"

text \<open>The loop of \<open>deserializeTrie\<close> over the entries, from \<open>offset\<close> on.\<close>

fun restore_entries :: "Trie \<Rightarrow> bytes \<Rightarrow> nat \<Rightarrow> nat \<Rightarrow> Trie" where
  "restore_entries t d offset 0 = t"
| "restore_entries t d offset (Suc n) =
     restore_entries
       (trie_Set t (slice d offset (offset + 32)) (slice d (offset + 32) (offset + 64)))
       d (offset + 64) n"

definition deserializeTrie :: "State \<Rightarrow> bytes \<Rightarrow> error option \<times> State" where
  "deserializeTrie s d =
     (if length d < 4 then (Some DataTooShort, s)
      else let numEntries = BigEndian_Uint32 (slice d 0 4);
               expectedLen = 4 + uint numEntries * 64
           in if int (length d) \<noteq> expectedLen
              then (Some (InvalidDataLength expectedLen (length d)), s)
              else (None, s\<lparr>trie := restore_entries empty_trie d 4 (unat numEntries)\<rparr>))"

definition Restore :: "scheme \<Rightarrow> State \<Rightarrow> SnapshotData \<Rightarrow> error option \<times> State" where
  "Restore sch s snapshotData =
     (case GetMetaData snapshotData of
        Inl err \<Rightarrow> (Some (Wrapped ''failed to get metadata'' err), s)
      | Inr metadata \<Rightarrow>
          if length metadata < 32 then (Some (InvalidMetadataLength (length metadata)), s)
          else let expectedCommitment = slice metadata 0 32
               in case GetPartData snapshotData 0 of
                    Inl err \<Rightarrow> (Some (Wrapped ''failed to get part data'' err), s)
                  | Inr d \<Rightarrow>
                      (case deserializeTrie s d of
                         (Some err, s) \<Rightarrow> (Some (Wrapped ''failed to deserialize trie'' err), s)
                       | (None, s) \<Rightarrow>
                           let restoredCommitment = Compress (trie_Commit sch (trie s))
                           in if restoredCommitment \<noteq> expectedCommitment
                              then (Some CommitmentMismatch, s)
                              else (None, s)))"

subsection \<open>Apply and the archive\<close>

record Update =
  CreatedAccounts :: "Address list"
  Nonces :: "(Address \<times> Nonce) list"
  Balances :: "(Address \<times> Amount) list"
  Slots :: "(Address \<times> Key \<times> Value) list"
  Codes :: "(Address \<times> bytes) list"

definition apply_created :: "env \<Rightarrow> State \<Rightarrow> Address \<Rightarrow> State" where
  "apply_created env s addr =
     (let accountKey = getBasicDataKey env addr;
          val = trie_Get (trie s) accountKey
      in if slice val 4 32 = replicate 28 0
         then let codeHashKey = getCodeHashKey env addr;
                  t = trie_Set (trie s) accountKey val;
                  t = trie_Set t codeHashKey (EmptyCodeHash env)
              in s\<lparr>trie := t\<rparr>
         else s)"

definition apply_nonce :: "env \<Rightarrow> State \<Rightarrow> Address \<times> Nonce \<Rightarrow> State" where
  "apply_nonce env s upd =
     (let key = getBasicDataKey env (fst upd);
          val = trie_Get (trie s) key;
          val = copy_into val 8 16 (snd upd)
      in s\<lparr>trie := trie_Set (trie s) key val\<rparr>)"

definition apply_balance :: "env \<Rightarrow> State \<Rightarrow> Address \<times> Amount \<Rightarrow> State" where
  "apply_balance env s upd =
     (let key = getBasicDataKey env (fst upd);
          val = trie_Get (trie s) key;
          amount = amount_Bytes32 (snd upd);
          val = copy_into val 16 32 (drop 16 amount)
      in s\<lparr>trie := trie_Set (trie s) key val\<rparr>)"

definition apply_slot :: "env \<Rightarrow> State \<Rightarrow> Address \<times> Key \<times> Value \<Rightarrow> State" where
  "apply_slot env s upd =
     (case upd of (account, k, v) \<Rightarrow>
        let key = getStorageKey env account k;
            t = trie_Set (trie s) key v;
            slots = (case writtenSlots s account of None \<Rightarrow> Map.empty | Some m \<Rightarrow> m)
        in s\<lparr>trie := t, writtenSlots := (writtenSlots s)(account \<mapsto> slots(k \<mapsto> True))\<rparr>)"

definition apply_code :: "env \<Rightarrow> State \<Rightarrow> Address \<times> bytes \<Rightarrow> State" where
  "apply_code env s upd =
     (case upd of (account, code) \<Rightarrow>
        let key = getBasicDataKey env account;
            val = trie_Get (trie s) key;
            size = length code;
            val = copy_into val 4 8 (BigEndian_PutUint32 (of_nat size));
            t = trie_Set (trie s) key val;
            key = getCodeHashKey env account;
            hash = Keccak256 env code;
            t = trie_Set t key hash;
            chunks = splitCode env code;
            t = foldl (\<lambda>t (i, chunk). trie_Set t (getCodeChunkKey env account (int i)) chunk)
                      t (zip [0..<length chunks] chunks)
        in s\<lparr>trie := t\<rparr>)"

definition archiveCurrentState :: "scheme \<Rightarrow> env \<Rightarrow> State \<Rightarrow> 64 word \<Rightarrow> error option \<times> State"
  where
  "archiveCurrentState sch env s block =
     (case CreateSnapshot sch env s of
        Inl err \<Rightarrow> (Some (Wrapped ''failed to create snapshot'' err), s)
      | Inr vtSnap \<Rightarrow> (None, s\<lparr>archive := addBlock (archive s) block vtSnap\<rparr>))"

definition Apply :: "scheme \<Rightarrow> env \<Rightarrow> State \<Rightarrow> 64 word \<Rightarrow> Update \<Rightarrow> error option \<times> State" where
  "Apply sch env s block update =
     (let s = foldl (apply_created env) s (CreatedAccounts update);
          s = foldl (apply_nonce env) s (Nonces update);
          s = foldl (apply_balance env) s (Balances update);
          s = foldl (apply_slot env) s (Slots update);
          s = foldl (apply_code env) s (Codes update)
      in case archiveCurrentState sch env s block of
           (Some err, s) \<Rightarrow> (Some (Wrapped ''failed to archive block'' err), s)
         | (None, s) \<Rightarrow> (None, s))"

definition GetArchiveState :: "scheme \<Rightarrow> State \<Rightarrow> 64 word \<Rightarrow> error + State" where
  "GetArchiveState sch s block =
     (case getBlock (archive s) block of
        None \<Rightarrow> Inl (NoArchivedState block)
      | Some snapshot \<Rightarrow>
          let archivedState = \<lparr>trie = empty_trie, archive = archive s,
                                writtenSlots = Map.empty, archiveMaxSize = archiveMaxSize s\<rparr>
          in case Restore sch archivedState (vtSnapshot_GetData snapshot) of
               (Some err, _) \<Rightarrow> Inl (Wrapped ''failed to restore archived state'' err)
             | (None, archivedState) \<Rightarrow> Inr archivedState)"

subsection \<open>Witness proofs\<close>

datatype Tribool = Tri_True | Tri_False | Tri_Unknown

record vtWitnessProof =
  rootHash :: Hash
  address :: Address
  balance :: Amount
  nonce :: Nonce
  codeHash :: Hash
  storage :: "(Key \<times> Value) list"
  exists :: bool

text \<open>
  The loop of \<open>AllStatesZero\<close> over the map \<open>p.storage\<close>, here the list of its
  entries in the order of the iteration.
\<close>

fun AllStatesZero_loop :: "(Key \<times> Value) list \<Rightarrow> Key \<Rightarrow> Key \<Rightarrow> Tribool" where
  "AllStatesZero_loop [] from_k to_k = Tri_True"
| "AllStatesZero_loop ((key, val) # rest) from_k to_k =
     (if bytes_Compare key from_k \<ge> 0 \<and> bytes_Compare key to_k \<le> 0
      then (if val \<noteq> zero_value then Tri_False else AllStatesZero_loop rest from_k to_k)
      else AllStatesZero_loop rest from_k to_k)"

definition AllStatesZero :: "vtWitnessProof \<Rightarrow> Hash \<Rightarrow> Address \<Rightarrow> Key \<Rightarrow> Key \<Rightarrow> Tribool" where
  "AllStatesZero p rt addr from_k to_k =
     (if rt \<noteq> rootHash p \<or> addr \<noteq> address p then Tri_Unknown
      else AllStatesZero_loop (storage p) from_k to_k)"


section \<open>Auxiliary definitions of the proofs\<close>

text \<open>
  The path invariant of the trie. A node is reached along the bytes \<open>pre\<close>: a leaf
  below has a stem of 31 bytes that starts with \<open>pre\<close> (invariant I1 of the
  specification), and inner nodes stand at the 31 levels of the stem only.
\<close>

primrec wf :: "node \<Rightarrow> bytes \<Rightarrow> bool" where
  "wf Empty pre = True"
| "wf (Inner cs) pre = (length pre < 31 \<and> (\<forall>b. wf (cs b) (pre @ [b])))"
| "wf (Leaf st vs) pre = (length st = 31 \<and> take (length pre) st = pre)"

text \<open>A node below which every stored value is the zero value.\<close>

primrec all_zero :: "node \<Rightarrow> bool" where
  "all_zero Empty = True"
| "all_zero (Inner cs) = (\<forall>b. all_zero (cs b))"
| "all_zero (Leaf st vs) = (\<forall>b. vs b = zero_value)"

text \<open>The keys and values \<open>Key{1}\<close>, \<open>Key{2}\<close>, \<open>Value{1}\<close> \<dots> of the tests.\<close>

definition Key_1 :: Key where
  "Key_1 = 1 # replicate 31 0"

definition Key_2 :: Key where
  "Key_2 = 2 # replicate 31 0"

definition Value_1 :: Value where
  "Value_1 = 1 # replicate 31 0"

definition Value_2 :: Value where
  "Value_2 = 2 # replicate 31 0"

definition Value_3 :: Value where
  "Value_3 = 3 # replicate 31 0"

text \<open>
  A small scheme and a small environment on which the theorems are evaluated: the
  field of 65537 elements with the generators \<open>H\<^sub>i = i + 1\<close>, and an encoder that
  keeps the address as the first 20 bytes of a key.
\<close>

definition demo_scheme :: scheme where
  "demo_scheme =
     \<lparr>fmod = 65537, gens = (\<lambda>i. uint i + 1), to_scalar = (\<lambda>c. c),
      leaf_rule = (\<lambda>st c1 c2. (c1 + 2 * c2) mod 65537)\<rparr>"

definition demo_env :: env where
  "demo_env =
     \<lparr>getBasicDataKey = (\<lambda>a. a @ replicate 11 0 @ [0]),
      getCodeHashKey = (\<lambda>a. a @ replicate 11 0 @ [1]),
      getStorageKey = (\<lambda>a k. a @ [2] @ slice k 21 31 @ [k ! 31]),
      getCodeChunkKey = (\<lambda>a i. a @ [3] @ be_bytes 10 (nat (i + 128) div 256)
                                 @ [of_nat (nat (i + 128) mod 256)]),
      Keccak256 = (\<lambda>code. replicate 32 170),
      splitCode = (\<lambda>code. []),
      EmptyCodeHash = replicate 32 197\<rparr>"

definition demo_proof :: vtWitnessProof where
  "demo_proof =
     \<lparr>rootHash = Value_3, address = replicate 20 7, balance = 0, nonce = replicate 8 0,
      codeHash = replicate 32 0, storage = [(Key_1, zero_value), (Key_2, Value_1)],
      exists = True\<rparr>"

definition demo_address :: Address where
  "demo_address = replicate 20 7"

definition demo_value :: Value where
  "demo_value = [0, 0, 0, 0, 0, 0, 1, 2, 0, 0, 0, 0, 0, 0, 0, 5] @ replicate 15 0 @ [7]"

definition demo_state :: State where
  "demo_state = newState\<lparr>trie := writes [(getBasicDataKey demo_env demo_address, demo_value)]\<rparr>"

text \<open>The key/value records of a serialized part, in the order of the part.\<close>

definition part_entries :: "bytes \<Rightarrow> (Key \<times> Value) list" where
  "part_entries d =
     map (\<lambda>i. (slice d (4 + 64 * i) (4 + 64 * i + 32), slice d (4 + 64 * i + 32) (4 + 64 * i + 64)))
       [0..<unat (BigEndian_Uint32 (slice d 0 4))]"

definition two_part_container :: SnapshotData where
  "two_part_container =
     \<lparr>GetMetaData = Inr (replicate 32 0 @ [0, 0, 0, 2]), GetPartData = (\<lambda>n. Inr [0, 0, 0, 0])\<rparr>"

definition empty_snapshot :: vtSnapshot where
  "empty_snapshot = \<lparr>commitment = replicate 32 0, data = [0, 0, 0, 0]\<rparr>"

definition truncated_snapshot :: vtSnapshot where
  "truncated_snapshot = \<lparr>commitment = replicate 32 0, data = [0, 0, 0]\<rparr>"

text \<open>
  The keys that \<open>serializeTrie\<close> probes for one value of \<open>addrByte\<close>, and all the
  keys it probes, in the order of its loops.
\<close>

definition address_keys :: "env \<Rightarrow> nat \<Rightarrow> Key list" where
  "address_keys env addrByte =
     (let addr = (replicate 20 0)[0 := of_nat addrByte]
      in [getBasicDataKey env addr, getCodeHashKey env addr]
         @ map (\<lambda>slotByte. getStorageKey env addr ((replicate 32 0)[31 := of_nat slotByte]))
             [0..<256]
         @ map (\<lambda>chunk. getCodeChunkKey env addr (int chunk)) [0..<1024])"

definition sampled_keys :: "env \<Rightarrow> Key list" where
  "sampled_keys env = concat (map (address_keys env) [0..<256])"

text \<open>An account outside the sampled addresses, and a block that writes one of its slots.\<close>

definition far_address :: Address where
  "far_address = 0 # 1 # replicate 18 0"

definition far_update :: Update where
  "far_update =
     \<lparr>CreatedAccounts = [], Nonces = [], Balances = [],
      Slots = [(far_address, Key_1, Value_1)], Codes = []\<rparr>"

text \<open>
  A scheme whose leaf rule separates leaves from inner nodes by an additive tag, one of
  the two ways section 4.2 of the specification names.
\<close>

definition tagged_scheme :: scheme where
  "tagged_scheme =
     \<lparr>fmod = 65537, gens = (\<lambda>i. uint i + 1), to_scalar = (\<lambda>c. c),
      leaf_rule = (\<lambda>st c1 c2. (c1 + 2 * c2 + 1) mod 65537)\<rparr>"

section \<open>Properties of the vector commitment\<close>

lemma all_bytes_distinct: "distinct all_bytes"
  unfolding all_bytes_def
  by (simp add: distinct_map inj_on_def word_of_nat_eq_iff take_bit_nat_eq_self)

lemma all_bytes_complete: "i \<in> set all_bytes"
proof -
  have "unat i < 256" using unsigned_less [of i] by simp
  moreover have "of_nat (unat i) = i" by simp
  ultimately show ?thesis unfolding all_bytes_def
    by (metis (no_types, lifting) atLeastLessThan_iff image_eqI set_map set_upt zero_le)
qed

lemma foldl_gadd:
  "a mod fmod sch = a \<Longrightarrow>
   foldl (\<lambda>acc i. gadd sch acc (smul sch (v i) (gens sch i))) a xs
     = (a + (\<Sum>i\<leftarrow>xs. v i * gens sch i)) mod fmod sch"
proof (induction xs arbitrary: a)
  case Nil
  then show ?case by simp
next
  case (Cons x xs)
  have "gadd sch a (smul sch (v x) (gens sch x)) mod fmod sch = gadd sch a (smul sch (v x) (gens sch x))"
    by (simp add: gadd_def)
  from Cons.IH [OF this] show ?case
    by (simp add: gadd_def smul_def mod_simps add.assoc)
qed

lemma Commit_sum: "Commit sch v = (\<Sum>i\<leftarrow>all_bytes. v i * gens sch i) mod fmod sch"
  unfolding Commit_def by (simp add: foldl_gadd Identity_def)

lemma sum_list_upd_notin:
  "j \<notin> set xs \<Longrightarrow>
   (\<Sum>i\<leftarrow>xs. (if i = j then x else f i) * (g i :: int)) = (\<Sum>i\<leftarrow>xs. f i * g i)"
  by (induction xs) auto

lemma sum_list_upd_in:
  "distinct xs \<Longrightarrow> j \<in> set xs \<Longrightarrow>
   (\<Sum>i\<leftarrow>xs. (if i = j then x else f i) * (g i :: int))
     = (\<Sum>i\<leftarrow>xs. f i * g i) + (x - f j) * g j"
proof (induction xs)
  case Nil
  then show ?case by simp
next
  case (Cons a xs)
  show ?case
  proof (cases "a = j")
    case True
    with Cons.prems have "j \<notin> set xs" by simp
    then have "(\<Sum>i\<leftarrow>xs. (if i = j then x else f i) * g i) = (\<Sum>i\<leftarrow>xs. f i * g i)"
      by (rule sum_list_upd_notin)
    with True show ?thesis by (simp add: algebra_simps)
  next
    case False
    with Cons show ?thesis by simp
  qed
qed

lemma Commit_upd:
  "Commit sch (v(i := x)) = (Commit sch v + (x - v i) * gens sch i) mod fmod sch"
  by (simp add: Commit_sum sum_list_upd_in [OF all_bytes_distinct all_bytes_complete] mod_simps)

text \<open>
  Claim C4. For every vector \<open>v\<close> of 256 scalars, every position \<open>i\<close> and every new
  value, \<open>Update(Commit(v), i, v[i], v_new)\<close> is \<open>Commit(v) + (v_new - v[i]) \<cdot> H\<^sub>i\<close>,
  and this is the commitment to \<open>v\<close> with slot \<open>i\<close> replaced by the new value.
\<close>

theorem Update_is_Commit_of_replaced:
  "Update sch (Commit sch v) i (v i) v_new
      = gadd sch (Commit sch v) (smul sch (fsub sch v_new (v i)) (gens sch i))
   \<and> Update sch (Commit sch v) i (v i) v_new = Commit sch (v(i := v_new))"
  by (simp add: Update_def Commit_upd gadd_def smul_def fsub_def mod_simps)

section \<open>Get and Set on the trie\<close>

lemma stem_length: "length k = 32 \<Longrightarrow> length (stem k) = 31"
  by (simp add: stem_def)

lemma stem_nth: "d < 31 \<Longrightarrow> stem k ! d = k ! d"
  by (simp add: stem_def)

lemma take_stem: "d \<le> 31 \<Longrightarrow> take d (stem k) = take d k"
  by (simp add: stem_def min_def)

lemma key_split: "length k = 32 \<Longrightarrow> k = stem k @ [sub_index k]"
proof -
  assume l: "length k = 32"
  then have "take (Suc 31) k = take 31 k @ [k ! 31]"
    by (intro take_Suc_conv_app_nth) simp
  moreover have "take (Suc 31) k = k" using l by simp
  ultimately show ?thesis by (simp add: stem_def sub_index_def)
qed

lemma key_eqI:
  "length k = 32 \<Longrightarrow> length k' = 32 \<Longrightarrow> stem k = stem k' \<Longrightarrow> sub_index k = sub_index k' \<Longrightarrow> k = k'"
  using key_split [of k] key_split [of k'] by simp

lemma take_Suc_eq:
  "d < length xs \<Longrightarrow> d < length ys \<Longrightarrow> take d xs = take d ys \<Longrightarrow> xs ! d = ys ! d
    \<Longrightarrow> take (Suc d) xs = take (Suc d) ys"
  by (simp add: take_Suc_conv_app_nth)

lemma stems_differ_depth:
  assumes "length so = 31" "length sn = 31" "so \<noteq> sn" "take d so = take d sn"
  shows "d < 31"
proof (rule ccontr)
  assume "\<not> d < 31"
  with assms have "take d so = so" "take d sn = sn" by simp_all
  with assms show False by simp
qed

lemma split_leaf_get:
  assumes "length so = 31" "length sn = 31" "so \<noteq> sn" "take d so = take d sn"
  shows "node_get (split_leaf so (Leaf so vso) sn (Leaf sn vsn) d) k d
         = (if so = stem k then vso (sub_index k)
            else if sn = stem k then vsn (sub_index k) else zero_value)"
  using assms
proof (induction so "Leaf so vso" sn "Leaf sn vsn" d rule: split_leaf.induct)
  case (1 so sn d)
  have d: "d < 31" using stems_differ_depth 1(2-5) by blast
  show ?case
  proof (cases "so ! d = sn ! d")
    case True
    then have t: "take (Suc d) so = take (Suc d) sn"
      using d 1 by (simp add: take_Suc_conv_app_nth)
    have IH: "node_get (split_leaf so (Leaf so vso) sn (Leaf sn vsn) (Suc d)) k (Suc d)
         = (if so = stem k then vso (sub_index k)
            else if sn = stem k then vsn (sub_index k) else zero_value)"
      using 1 True d t by simp
    have ne: "k ! d \<noteq> sn ! d \<Longrightarrow> so \<noteq> stem k \<and> sn \<noteq> stem k"
      using True d stem_nth by metis
    show ?thesis
      by (subst split_leaf.simps) (use True d IH ne in \<open>auto simp: no_children_def\<close>)
  next
    case False
    have "k ! d \<noteq> sn ! d \<Longrightarrow> sn \<noteq> stem k" "k ! d \<noteq> so ! d \<Longrightarrow> so \<noteq> stem k"
      using d stem_nth by metis+
    then show ?thesis using False d
      by (subst split_leaf.simps) (auto simp: no_children_def)
  qed
qed

lemma split_leaf_wf:
  assumes "length so = 31" "length sn = 31" "so \<noteq> sn" "take d so = take d sn"
  shows "wf (split_leaf so (Leaf so vso) sn (Leaf sn vsn) d) (take d sn)"
  using assms
proof (induction so "Leaf so vso" sn "Leaf sn vsn" d rule: split_leaf.induct)
  case (1 so sn d)
  have d: "d < 31" using stems_differ_depth 1(2-5) by blast
  have tn: "take d sn @ [sn ! d] = take (Suc d) sn" using d 1 by (simp add: take_Suc_conv_app_nth)
  have to: "take d sn @ [so ! d] = take (Suc d) so" using d 1 by (simp add: take_Suc_conv_app_nth)
  show ?case
  proof (cases "so ! d = sn ! d")
    case True
    then have t: "take (Suc d) so = take (Suc d) sn"
      using d 1 by (simp add: take_Suc_conv_app_nth)
    have IH: "wf (split_leaf so (Leaf so vso) sn (Leaf sn vsn) (Suc d)) (take (Suc d) sn)"
      using 1 True d t by simp
    show ?thesis
      by (subst split_leaf.simps) (use True d IH tn 1 in \<open>auto simp: no_children_def\<close>)
  next
    case False
    show ?thesis 
      by (subst split_leaf.simps) (use False d tn to 1 in \<open>auto simp: no_children_def min_def\<close>)
  qed
qed

lemma wf_leaf_path:
  assumes "wf (Leaf st vs) (take d k)" "length k = 32"
  shows "d \<le> 31 \<and> length st = 31 \<and> take d st = take d (stem k)"
proof -
  from assms have l: "length st = 31" and t: "take (length (take d k)) st = take d k" by simp_all
  have "length (take (length (take d k)) st) = length (take d k)" using t by simp
  with l assms(2) have d: "d \<le> 31" by (simp add: min_def split: if_splits)
  with t assms(2) have "take d st = take d k" by (simp add: min_def)
  with d l show ?thesis by (simp add: take_stem)
qed

lemma node_set_wf:
  "wf n (take d k) \<Longrightarrow> length k = 32 \<Longrightarrow> d \<le> 31 \<Longrightarrow> wf (node_set n k d v) (take d k)"
proof (induction n arbitrary: d)
  case Empty
  then show ?case by (simp add: new_leaf_def stem_length take_stem min_def)
next
  case (Inner cs)
  then have d: "d < 31" by (simp add: min_def split: if_splits)
  have tk: "take d k @ [k ! d] = take (Suc d) k" using d Inner by (simp add: take_Suc_conv_app_nth)
  have "wf (cs (k ! d)) (take (Suc d) k)" using Inner.prems tk by (metis wf.simps(2))
  then have "wf (node_set (cs (k ! d)) k (Suc d) v) (take (Suc d) k)"
    using Inner.IH [of "cs (k ! d)" "Suc d"] Inner.prems d by simp
  then show ?case using Inner.prems tk by auto
next
  case (Leaf st vs)
  show ?case
  proof (cases "st = stem k")
    case True
    then show ?thesis using Leaf by simp
  next
    case False
    have p: "d \<le> 31 \<and> length st = 31 \<and> take d st = take d (stem k)"
      using wf_leaf_path Leaf.prems by blast
    then have "wf (split_leaf st (Leaf st vs) (stem k) (Leaf (stem k) (no_values(sub_index k := v))) d) (take d (stem k))"
      using split_leaf_wf [of st "stem k" d] False Leaf.prems by (simp add: stem_length)
    then show ?thesis using False p by (simp add: new_leaf_def take_stem)
  qed
qed

lemma node_get_set_same:
  "wf n (take d k) \<Longrightarrow> length k = 32 \<Longrightarrow> node_get (node_set n k d v) k d = v"
proof (induction n arbitrary: d)
  case Empty
  then show ?case by (simp add: new_leaf_def)
next
  case (Inner cs)
  then have d: "d < 31" by (simp add: min_def split: if_splits)
  have tk: "take d k @ [k ! d] = take (Suc d) k" using d Inner by (simp add: take_Suc_conv_app_nth)
  have "wf (cs (k ! d)) (take (Suc d) k)" using Inner.prems tk by (metis wf.simps(2))
  then show ?case using Inner.IH [of "cs (k ! d)" "Suc d"] Inner.prems by simp
next
  case (Leaf st vs)
  show ?case
  proof (cases "st = stem k")
    case True
    then show ?thesis by simp
  next
    case False
    have p: "d \<le> 31 \<and> length st = 31 \<and> take d st = take d (stem k)"
      using wf_leaf_path Leaf.prems by blast
    then show ?thesis using split_leaf_get [of st "stem k" d vs "no_values(sub_index k := v)" k] False Leaf
      by (simp add: new_leaf_def stem_length)
  qed
qed

lemma node_get_set_other:
  "wf n (take d k) \<Longrightarrow> length k = 32 \<Longrightarrow> length k' = 32 \<Longrightarrow> k' \<noteq> k
    \<Longrightarrow> node_get (node_set n k d v) k' d = node_get n k' d"
proof (induction n arbitrary: d)
  case Empty
  then show ?case using key_eqI [of k k'] by (auto simp: new_leaf_def no_values_def)
next
  case (Inner cs)
  then have d: "d < 31" by (simp add: min_def split: if_splits)
  have tk: "take d k @ [k ! d] = take (Suc d) k" using d Inner by (simp add: take_Suc_conv_app_nth)
  have "wf (cs (k ! d)) (take (Suc d) k)" using Inner.prems tk by (metis wf.simps(2))
  then show ?case using Inner.IH [of "cs (k ! d)" "Suc d"] Inner.prems by simp
next
  case (Leaf st vs)
  show ?case
  proof (cases "st = stem k")
    case True
    then show ?thesis using key_eqI [of k k'] Leaf by auto
  next
    case False
    have p: "d \<le> 31 \<and> length st = 31 \<and> take d st = take d (stem k)"
      using wf_leaf_path Leaf.prems by blast
    then show ?thesis using split_leaf_get [of st "stem k" d vs "no_values(sub_index k := v)" k'] False Leaf
       key_eqI [of k k']
      by (auto simp: new_leaf_def stem_length no_values_def)
  qed
qed

lemma trie_Set_root:
  "root (trie_Set t k v) = node_set (case root t of Empty \<Rightarrow> Inner no_children | n \<Rightarrow> n) k 0 v"
  by (cases "root t") (simp_all add: trie_Set_def)

lemma wf_start: "wf (root t) [] \<Longrightarrow> wf (case root t of Empty \<Rightarrow> Inner no_children | n \<Rightarrow> n) []"
  by (cases "root t") (simp_all add: no_children_def)

lemma trie_Set_wf:
  assumes "wf (root t) []" "length k = 32"
  shows "wf (root (trie_Set t k v)) []"
  using node_set_wf [of _ 0 k v] wf_start [OF assms(1)] assms(2) by (simp add: trie_Set_root)

lemma trie_Get_Set_same:
  assumes "wf (root t) []" "length k = 32"
  shows "trie_Get (trie_Set t k v) k = v"
  using node_get_set_same [of _ 0 k v] wf_start [OF assms(1)] assms(2)
  by (simp add: trie_Set_root trie_Get_def)

lemma trie_Get_Set_other:
  assumes "wf (root t) []" "length k = 32" "length k' = 32" "k' \<noteq> k"
  shows "trie_Get (trie_Set t k v) k' = trie_Get t k'"
proof -
  have "node_get (case root t of Empty \<Rightarrow> Inner no_children | n \<Rightarrow> n) k' 0 = node_get (root t) k' 0"
    by (cases "root t") (simp_all add: no_children_def)
  then show ?thesis
    using node_get_set_other [of _ 0 k k' v] wf_start [OF assms(1)] assms(2-4)
    by (simp add: trie_Set_root trie_Get_def)
qed

lemma writes_snoc: "writes (ws @ [(k, v)]) = trie_Set (writes ws) k v"
  by (simp add: writes_def)

lemma writes_wf: "\<forall>(k, v) \<in> set ws. length k = 32 \<Longrightarrow> wf (root (writes ws)) []"
proof (induction ws rule: rev_induct)
  case Nil
  then show ?case by (simp add: writes_def empty_trie_def)
next
  case (snoc x xs)
  then show ?case by (cases x) (simp add: writes_snoc trie_Set_wf)
qed

lemma writes_Get:
  "\<forall>(k', v') \<in> set ws. length k' = 32 \<Longrightarrow> length k = 32 \<Longrightarrow>
   trie_Get (writes ws) k = (case map_of (rev ws) k of Some w \<Rightarrow> w | None \<Rightarrow> zero_value)"
proof (induction ws rule: rev_induct)
  case Nil
  then show ?case by (simp add: writes_def empty_trie_def trie_Get_def)
next
  case (snoc x xs)
  obtain k' v' where x: "x = (k', v')" by (cases x)
  have w: "wf (root (writes xs)) []" using writes_wf snoc.prems by simp
  have l: "length k' = 32" using snoc.prems x by simp
  show ?case
  proof (cases "k = k'")
    case True
    then show ?thesis using x w l by (simp add: writes_snoc trie_Get_Set_same)
  next
    case False
    then show ?thesis using x w l snoc by (simp add: writes_snoc trie_Get_Set_other)
  qed
qed

text \<open>
  Claim C1. After \<open>Set(key, value)\<close> on a trie, \<open>Get(key)\<close> returns that value;
  after any sequence of writes \<open>Get\<close> returns the value the key was written last,
  and the zero value for a key that was never set. \<open>Get\<close> is a total function: it
  has no error result. Keys are the 32-byte arrays of the type \<open>Key\<close>.
\<close>

theorem trie_Get_after_Set:
  "(\<forall>(k', v') \<in> set ws. length k' = 32) \<Longrightarrow> length k = 32 \<Longrightarrow>
   trie_Get (trie_Set (writes ws) k v) k = v \<and>
   trie_Get (writes ws) k = (case map_of (rev ws) k of Some w \<Rightarrow> w | None \<Rightarrow> zero_value)"
  using writes_Get [of ws k] trie_Get_Set_same [of "writes ws" k v] writes_wf [of ws]
  by simp

theorem trie_Get_after_Set_witness:
  "trie_Get (trie_Set (writes [(Key_1, Value_1), (Key_2, Value_2)]) Key_1 Value_3) Key_1 = Value_3
   \<and> trie_Get (writes [(Key_1, Value_1), (Key_1, Value_2)]) Key_1 = Value_2 
   \<and> trie_Get (writes [(Key_1, Value_1), (Key_1, Value_2)]) Key_2 = zero_value"
  using trie_Get_after_Set [of "[(Key_1, Value_1), (Key_2, Value_2)]" Key_1 Value_3]
    trie_Get_after_Set [of "[(Key_1, Value_1), (Key_1, Value_2)]" Key_1 Value_3]
    trie_Get_after_Set [of "[(Key_1, Value_1), (Key_1, Value_2)]" Key_2 Value_3]
  by (simp add: Key_1_def Key_2_def)

section \<open>Witness proofs: AllStatesZero\<close>

lemma AllStatesZero_loop_char:
  "AllStatesZero_loop st from_k to_k =
     (if \<exists>(key, val) \<in> set st.
           0 \<le> bytes_Compare key from_k \<and> bytes_Compare key to_k \<le> 0 \<and> val \<noteq> zero_value
      then Tri_False else Tri_True)"
  by (induction st from_k to_k rule: AllStatesZero_loop.induct) auto

text \<open>
  Claim C10. When the root and the address given match the proof, \<open>AllStatesZero\<close>
  never returns \<open>Unknown\<close>: it returns \<open>False\<close> if a storage key recorded in the
  proof lies in the range \<open>[from, to]\<close> and holds a non-zero value, and \<open>True\<close>
  otherwise, whatever keys of the range the proof does not record.
\<close>

theorem AllStatesZero_matching:
  "rt = rootHash p \<Longrightarrow> addr = address p \<Longrightarrow>
   AllStatesZero p rt addr from_k to_k \<noteq> Tri_Unknown \<and>
   AllStatesZero p rt addr from_k to_k =
     (if \<exists>(key, val) \<in> set (storage p).
           0 \<le> bytes_Compare key from_k \<and> bytes_Compare key to_k \<le> 0 \<and> val \<noteq> zero_value
      then Tri_False else Tri_True)"
  by (simp add: AllStatesZero_def AllStatesZero_loop_char)

theorem AllStatesZero_matching_witness:
  "AllStatesZero demo_proof Value_3 (replicate 20 7) Key_1 Key_2 = Tri_False \<and>
   AllStatesZero demo_proof Value_3 (replicate 20 7) Key_1 Key_1 = Tri_True \<and>
   AllStatesZero demo_proof Value_3 (replicate 20 7) (replicate 32 255) (replicate 32 255) = Tri_True"
  using AllStatesZero_matching [of Value_3 demo_proof "replicate 20 7" Key_1 Key_2]
    AllStatesZero_matching [of Value_3 demo_proof "replicate 20 7" Key_1 Key_1]
    AllStatesZero_matching [of Value_3 demo_proof "replicate 20 7" "replicate 32 255" "replicate 32 255"]
  by (simp add: demo_proof_def Key_1_def Key_2_def Value_1_def Value_3_def zero_value_def
        eval_nat_numeral)

section \<open>Account getters\<close>

lemma be_nat_snoc: "be_nat (bs @ [b]) = be_nat bs * 256 + unat b"
  by (simp add: be_nat_def)

lemma be_nat_bound: "be_nat bs < 256 ^ length bs"
proof (induction bs rule: rev_induct)
  case Nil
  then show ?case by (simp add: be_nat_def)
next
  case (snoc b bs)
  have "unat b < 256" using unsigned_less [of b] by simp
  with snoc show ?case by (simp add: be_nat_snoc)
qed

lemma slice_length: "length (slice b lo hi) \<le> hi - lo"
  by (simp add: slice_def)

lemma be_nat_slice_bound: "be_nat (slice b lo hi) < 256 ^ (hi - lo)"
proof -
  have "be_nat (slice b lo hi) < 256 ^ length (slice b lo hi)" by (rule be_nat_bound)
  also have "\<dots> \<le> (256::nat) ^ (hi - lo)"
    by (rule power_increasing) (simp_all add: slice_length)
  finally show ?thesis .
qed

lemma Uint32_slice: "uint (BigEndian_Uint32 (slice b lo (lo + 4))) = int (be_nat (slice b lo (lo + 4)))"
proof -
  have "take 4 (slice b lo (lo + 4)) = slice b lo (lo + 4)" by (simp add: slice_def)
  moreover have "be_nat (slice b lo (lo + 4)) < 2 ^ 32"
    using be_nat_slice_bound [of b lo "lo + 4"] by simp
  ultimately show ?thesis
    by (simp add: BigEndian_Uint32_def uint_nat unsigned_of_nat take_bit_nat_eq_self)
qed

lemma NewFromBytes_16: "unat (amount_NewFromBytes (slice b 16 32)) = be_nat (slice b 16 32)"
proof -
  have "be_nat (slice b 16 32) < 256 ^ 16" using be_nat_slice_bound [of b 16 32] by simp
  also have "(256::nat) ^ 16 \<le> 2 ^ 256" by simp
  finally show ?thesis
    by (simp add: amount_NewFromBytes_def unsigned_of_nat take_bit_nat_eq_self)
qed

lemma slice_4_8:
  assumes "length b = 32"
  shows "slice b 4 8 = [b ! 4, b ! 5, b ! 6, b ! 7]"
proof -
  have "drop 4 b = b ! 4 # b ! 5 # b ! 6 # b ! 7 # drop 8 b"
    using assms Cons_nth_drop_Suc [of 4 b] Cons_nth_drop_Suc [of 5 b]
      Cons_nth_drop_Suc [of 6 b] Cons_nth_drop_Suc [of 7 b]
    by simp
  then show ?thesis by (simp add: slice_def)
qed

lemma be_nat_zero_Cons: "be_nat (0 # bs) = be_nat bs"
  by (simp add: be_nat_def)

lemma be_nat_replicate_zero: "be_nat (replicate n 0 @ bs) = be_nat bs"
  by (induction n) (simp_all add: be_nat_zero_Cons)

lemma PutUint32_length: "length (BigEndian_PutUint32 x) = 4"
  by (simp add: BigEndian_PutUint32_def be_bytes_def)

lemma demo_value_read:
  "trie_Get (trie demo_state) (getBasicDataKey demo_env demo_address) = demo_value"
  using writes_Get [of "[(getBasicDataKey demo_env demo_address, demo_value)]"
      "getBasicDataKey demo_env demo_address"]
  by (simp add: demo_state_def demo_env_def demo_address_def)

text \<open>
  Claim C8. For every address the getters decode the packed \<open>BasicData\<close> value of
  the account: \<open>GetCodeSize\<close> is the big-endian 32-bit integer of bytes 4 to 7,
  \<open>GetNonce\<close> is bytes 8 to 15, and \<open>GetBalance\<close> is the big-endian amount of
  bytes 16 to 31.
\<close>

theorem getters_decode_BasicData:
  "val = trie_Get (trie s) (getBasicDataKey env addr) \<Longrightarrow> length val = 32 \<Longrightarrow>
   GetCodeSize env s addr = int (be_nat (slice val 4 8)) \<and>
   GetCodeSize env s addr
     = int (((unat (val ! 4) * 256 + unat (val ! 5)) * 256 + unat (val ! 6)) * 256 + unat (val ! 7)) \<and>
   GetNonce env s addr = slice val 8 16 \<and>
   unat (GetBalance env s addr) = be_nat (slice val 16 32)"
  using Uint32_slice [of val 4] NewFromBytes_16 [of val] slice_4_8 [of val]
  by (simp add: GetCodeSize_def GetNonce_def GetBalance_def be_nat_def)

theorem getters_decode_BasicData_witness:
  "GetCodeSize demo_env demo_state demo_address = 258 \<and>
   GetNonce demo_env demo_state demo_address = [0, 0, 0, 0, 0, 0, 0, 5] \<and>
   unat (GetBalance demo_env demo_state demo_address) = 7"
  using getters_decode_BasicData [of demo_value demo_state demo_env demo_address] demo_value_read
  by (simp add: demo_value_def slice_def be_nat_replicate_zero) (simp add: be_nat_def)

section \<open>Restore\<close>

lemma restore_entries_foldl:
  "restore_entries t d off n =
     foldl (\<lambda>t (k, v). trie_Set t k v) t
       (map (\<lambda>i. (slice d (off + 64 * i) (off + 64 * i + 32),
                  slice d (off + 64 * i + 32) (off + 64 * i + 64))) [0..<n])"
proof (induction n arbitrary: t off)
  case 0
  then show ?case by simp
next
  case (Suc n)
  have "[0..<Suc n] = 0 # map Suc [0..<n]"
    by (simp add: upt_conv_Cons map_Suc_upt del: upt_Suc)
  then show ?case using Suc.IH [of _ "off + 64"]
    by (simp add: o_def add.assoc add.left_commute del: upt_Suc)
qed

lemma restore_entries_writes:
  "restore_entries empty_trie d 4 (unat (BigEndian_Uint32 (slice d 0 4))) = writes (part_entries d)"
  by (simp add: restore_entries_foldl writes_def part_entries_def)

lemma Compress_Identity: "Compress Identity = replicate 32 0"
  by (simp add: Compress_def Identity_def be_bytes_def map_replicate_const)

lemma empty_trie_hash: "Compress (trie_Commit sch empty_trie) = replicate 32 0"
  using Compress_Identity by (simp add: trie_Commit_def empty_trie_def)

lemma Uint32_zero: "BigEndian_Uint32 [0, 0, 0, 0] = 0"
  by (simp add: BigEndian_Uint32_def be_nat_def)

text \<open>
  Claim C3, as stated, fails: \<open>Restore\<close> never reads the part count of the
  metadata. A container whose metadata announces two parts is restored without an
  error.
\<close>

theorem Restore_ignores_part_count:
  "fst (Restore demo_scheme newState two_part_container) = None \<and>
   GetMetaData two_part_container = Inr (replicate 32 0 @ [0, 0, 0, 2]) \<and>
   BigEndian_Uint32 (slice (replicate 32 0 @ [0, 0, 0, 2]) 32 36) = 2"
  by (simp add: Restore_def deserializeTrie_def two_part_container_def slice_def Uint32_zero
       empty_trie_hash BigEndian_Uint32_def be_nat_def)

text \<open>
  Claim C3, amended. \<open>Restore\<close> returns no error exactly when both accessors of the
  container succeed, the metadata has at least 32 bytes, the part has at least 4 bytes
  and exactly \<open>4 + 64 \<cdot> n\<close> bytes for its count header \<open>n\<close>, and the compressed root
  commitment of the trie rebuilt from the \<open>n\<close> records equals the first 32 bytes of
  the metadata. In every other case it returns an error. The part count of the
  metadata is not examined.
\<close>

theorem Restore_succeeds_iff:
  "fst (Restore sch s sd) = None \<longleftrightarrow>
     (\<exists>metadata d.
        GetMetaData sd = Inr metadata \<and> 32 \<le> length metadata \<and>
        GetPartData sd 0 = Inr d \<and> 4 \<le> length d \<and>
        int (length d) = 4 + uint (BigEndian_Uint32 (slice d 0 4)) * 64 \<and>
        Compress (trie_Commit sch (writes (part_entries d))) = slice metadata 0 32)"
  unfolding Restore_def deserializeTrie_def restore_entries_writes [symmetric]
  by (auto simp: Let_def split: sum.splits option.splits prod.splits if_splits)

theorem Restore_succeeds_iff_witness:
  "fst (Restore demo_scheme newState (vtSnapshot_GetData empty_snapshot)) = None \<and>
   fst (Restore demo_scheme newState (vtSnapshot_GetData truncated_snapshot)) \<noteq> None"
  using Restore_succeeds_iff [of demo_scheme newState "vtSnapshot_GetData empty_snapshot"]
    Restore_succeeds_iff [of demo_scheme newState "vtSnapshot_GetData truncated_snapshot"]
  by (simp add: vtSnapshot_GetData_def vtSnapshot_GetMetaData_def vtSnapshot_GetPartData_def
        empty_snapshot_def truncated_snapshot_def copy_into_def slice_def Uint32_zero
        part_entries_def writes_def empty_trie_hash PutUint32_length Let_def)

section \<open>Writes commute\<close>

lemma split_leaf_unfold:
  "d < 31 \<Longrightarrow> split_leaf so old sn new d =
     (if so ! d = sn ! d then Inner (no_children(sn ! d := split_leaf so old sn new (Suc d)))
      else Inner (no_children(so ! d := old, sn ! d := new)))"
  by (subst split_leaf.simps) simp

lemma take_Suc_agree:
  "d < length xs \<Longrightarrow> d < length ys \<Longrightarrow> take d xs = take d ys \<Longrightarrow> xs ! d = ys ! d
    \<Longrightarrow> take (Suc d) xs = take (Suc d) ys"
  by (simp add: take_Suc_conv_app_nth)

lemma split_leaf_sym:
  assumes "length so = 31" "length sn = 31" "so \<noteq> sn" "take d so = take d sn"
  shows "split_leaf so old sn new d = split_leaf sn new so old d"
  using assms
proof (induction so old sn new d rule: split_leaf.induct)
  case (1 so old sn new d)
  have d: "d < 31" using stems_differ_depth 1(2-5) by blast
  show ?case
  proof (cases "so ! d = sn ! d")
    case True
    then have "take (Suc d) so = take (Suc d) sn" using d 1 by (intro take_Suc_agree) simp_all
    then have "split_leaf so old sn new (Suc d) = split_leaf sn new so old (Suc d)"
      using 1 True d by simp
    then show ?thesis using True d by (simp add: split_leaf_unfold)
  next
    case False
    then show ?thesis using d by (simp add: split_leaf_unfold fun_upd_twist)
  qed
qed

lemma split_leaf_set_old:
  assumes "length so = 31" "length sn = 31" "so \<noteq> sn" "take d so = take d sn"
    "stem k = so"
  shows "node_set (split_leaf so (Leaf so vso) sn new d) k d v
         = split_leaf so (Leaf so (vso(sub_index k := v))) sn new d"
  using assms
proof (induction so "Leaf so vso" sn new d rule: split_leaf.induct)
  case (1 so sn new d)
  have d: "d < 31" using stems_differ_depth 1(2-5) by blast
  have kd: "k ! d = so ! d" using d 1(6) stem_nth by metis
  show ?case
  proof (cases "so ! d = sn ! d")
    case True
    then have "take (Suc d) so = take (Suc d) sn" using d 1 by (intro take_Suc_agree) simp_all
    then have "node_set (split_leaf so (Leaf so vso) sn new (Suc d)) k (Suc d) v
         = split_leaf so (Leaf so (vso(sub_index k := v))) sn new (Suc d)"
      using 1 True d by simp
    then show ?thesis using True d kd by (simp add: split_leaf_unfold)
  next
    case False
    then show ?thesis using d kd 1(6) by (simp add: split_leaf_unfold fun_upd_twist)
  qed
qed

lemma split_leaf_set_new:
  assumes "length so = 31" "length sn = 31" "so \<noteq> sn" "take d so = take d sn"
    "stem k = sn"
  shows "node_set (split_leaf so old sn (Leaf sn vsn) d) k d v
         = split_leaf so old sn (Leaf sn (vsn(sub_index k := v))) d"
proof -
  have "node_set (split_leaf sn (Leaf sn vsn) so old d) k d v
         = split_leaf sn (Leaf sn (vsn(sub_index k := v))) so old d"
    using split_leaf_set_old [of sn so d k vsn old v] assms by simp
  then show ?thesis
    using split_leaf_sym [of so sn d] assms by simp
qed

lemma split_leaf_three:
  assumes "length so = 31" "length k1 = 32" "length k2 = 32"
    "so \<noteq> stem k1" "so \<noteq> stem k2" "stem k1 \<noteq> stem k2"
    "take d so = take d (stem k1)" "take d so = take d (stem k2)"
  shows "node_set (split_leaf so (Leaf so vso) (stem k1) (new_leaf k1 v1) d) k2 d v2
       = node_set (split_leaf so (Leaf so vso) (stem k2) (new_leaf k2 v2) d) k1 d v1"
  using assms(7,8)
proof (induction n \<equiv> "31 - d" arbitrary: d)
  case 0
  then have "\<not> d < 31" by simp
  moreover have "d < 31"
    using stems_differ_depth [of so "stem k1" d] assms(1,2,4) "0.prems" by (simp add: stem_length)
  ultimately show ?case by simp
next
  case (Suc n)
  have d: "d < 31" using Suc.hyps by simp
  have l1: "length (stem k1) = 31" and l2: "length (stem k2) = 31"
    using assms by (simp_all add: stem_length)
  have b1: "stem k1 ! d = k1 ! d" and b2: "stem k2 ! d = k2 ! d" using d by (simp_all add: stem_nth)
  have n: "n = 31 - Suc d" using Suc.hyps by simp
  let ?L = "Leaf so vso"
  show ?case
  proof (cases "so ! d = k1 ! d")
    case a1: True
    then have t1: "take (Suc d) so = take (Suc d) (stem k1)"
      using d assms(1) l1 b1 Suc.prems by (intro take_Suc_agree) simp_all
    show ?thesis
    proof (cases "so ! d = k2 ! d")
      case a2: True
      then have t2: "take (Suc d) so = take (Suc d) (stem k2)"
        using d assms(1) l2 b2 Suc.prems by (intro take_Suc_agree) simp_all
      have "node_set (split_leaf so ?L (stem k1) (new_leaf k1 v1) (Suc d)) k2 (Suc d) v2
          = node_set (split_leaf so ?L (stem k2) (new_leaf k2 v2) (Suc d)) k1 (Suc d) v1"
        using Suc.hyps(1) [OF n t1 t2] .
      then show ?thesis using a1 a2 d b1 b2 by (simp add: split_leaf_unfold)
    next
      case a2: False
      have "node_set ?L k1 (Suc d) v1 = split_leaf so ?L (stem k1) (new_leaf k1 v1) (Suc d)"
        using assms(4) by simp
      then show ?thesis using a1 a2 d b1 b2
        by (simp add: split_leaf_unfold no_children_def fun_upd_twist)
    qed
  next
    case a1: False
    show ?thesis
    proof (cases "so ! d = k2 ! d")
      case a2: True
      have "node_set ?L k2 (Suc d) v2 = split_leaf so ?L (stem k2) (new_leaf k2 v2) (Suc d)"
        using assms(5) by simp
      then show ?thesis using a1 a2 d b1 b2
        by (simp add: split_leaf_unfold no_children_def fun_upd_twist)
    next
      case a2: False
      show ?thesis
      proof (cases "k1 ! d = k2 ! d")
        case True
        have "take (Suc d) (stem k1) = take (Suc d) (stem k2)"
          using d l1 l2 b1 b2 True Suc.prems by (intro take_Suc_agree) simp_all
        then have "split_leaf (stem k1) (new_leaf k1 v1) (stem k2) (new_leaf k2 v2) (Suc d)
            = split_leaf (stem k2) (new_leaf k2 v2) (stem k1) (new_leaf k1 v1) (Suc d)"
          using split_leaf_sym [of "stem k1" "stem k2" "Suc d"] l1 l2 assms(6) by simp
        then show ?thesis using a1 a2 d b1 b2 True assms(6)
          by (simp add: split_leaf_unfold new_leaf_def)
      next
        case False
        then show ?thesis using a1 a2 d b1 b2
          by (simp add: split_leaf_unfold no_children_def fun_upd_twist)
      qed
    qed
  qed
qed

lemma take_stem_agree:
  assumes "take d k1 = take d k2"
  shows "take d (stem k1) = take d (stem k2)"
proof -
  have "take 31 (take d k1) = take 31 (take d k2)" using assms by simp
  then show ?thesis by (simp add: stem_def take_take min.commute)
qed

lemma sub_index_neq:
  "length k1 = 32 \<Longrightarrow> length k2 = 32 \<Longrightarrow> k1 \<noteq> k2 \<Longrightarrow> stem k1 = stem k2
     \<Longrightarrow> sub_index k1 \<noteq> sub_index k2"
  using key_eqI [of k1 k2] by blast

lemma node_set_commute:
  "wf n (take d k1) \<Longrightarrow> take d k1 = take d k2 \<Longrightarrow> length k1 = 32 \<Longrightarrow> length k2 = 32
    \<Longrightarrow> k1 \<noteq> k2
    \<Longrightarrow> node_set (node_set n k1 d v1) k2 d v2 = node_set (node_set n k2 d v2) k1 d v1"
proof (induction n arbitrary: d)
  case Empty
  have st: "take d (stem k1) = take d (stem k2)" using Empty.prems(2) by (rule take_stem_agree)
  show ?case
  proof (cases "stem k1 = stem k2")
    case True
    then have "sub_index k1 \<noteq> sub_index k2" using sub_index_neq Empty.prems by blast
    then show ?thesis using True by (simp add: new_leaf_def fun_upd_twist)
  next
    case False
    then show ?thesis
      using split_leaf_sym [of "stem k1" "stem k2" d] st Empty.prems
      by (simp add: new_leaf_def stem_length)
  qed
next
  case (Inner cs)
  then have d: "d < 31" by (simp add: min_def split: if_splits)
  show ?case
  proof (cases "k1 ! d = k2 ! d")
    case True
    have tk: "take d k1 @ [k1 ! d] = take (Suc d) k1"
      using d Inner.prems by (simp add: take_Suc_conv_app_nth)
    have w: "wf (cs (k1 ! d)) (take (Suc d) k1)" using Inner.prems tk by (metis wf.simps(2))
    have t: "take (Suc d) k1 = take (Suc d) k2"
      using d True Inner.prems by (intro take_Suc_agree) simp_all
    have "node_set (node_set (cs (k1 ! d)) k1 (Suc d) v1) k2 (Suc d) v2
        = node_set (node_set (cs (k1 ! d)) k2 (Suc d) v2) k1 (Suc d) v1"
      using Inner.IH [of "cs (k1 ! d)" "Suc d"] w t Inner.prems by simp
    then show ?thesis using True by simp
  next
    case False
    then show ?thesis by (simp add: fun_upd_twist)
  qed
next
  case (Leaf st vs)
  have p1: "d \<le> 31 \<and> length st = 31 \<and> take d st = take d (stem k1)"
    using wf_leaf_path Leaf.prems by blast
  have st: "take d (stem k1) = take d (stem k2)" using Leaf.prems(2) by (rule take_stem_agree)
  have l1: "length (stem k1) = 31" and l2: "length (stem k2) = 31"
    using Leaf.prems by (simp_all add: stem_length)
  show ?case
  proof (cases "st = stem k1")
    case s1: True
    show ?thesis
    proof (cases "st = stem k2")
      case True
      then have "sub_index k1 \<noteq> sub_index k2" using sub_index_neq Leaf.prems s1 by metis
      then show ?thesis using s1 True by (simp add: fun_upd_twist)
    next
      case False
      have "node_set (split_leaf st (Leaf st vs) (stem k2) (new_leaf k2 v2) d) k1 d v1
          = split_leaf st (Leaf st (vs(sub_index k1 := v1))) (stem k2) (new_leaf k2 v2) d"
        by (rule split_leaf_set_old) (use p1 l2 st s1 False in simp_all)
      then show ?thesis using s1 False by simp
    qed
  next
    case s1: False
    show ?thesis
    proof (cases "st = stem k2")
      case True
      have "node_set (split_leaf st (Leaf st vs) (stem k1) (new_leaf k1 v1) d) k2 d v2
          = split_leaf st (Leaf st (vs(sub_index k2 := v2))) (stem k1) (new_leaf k1 v1) d"
        by (rule split_leaf_set_old) (use p1 l1 s1 True in simp_all)
      then show ?thesis using s1 True by simp
    next
      case s2: False
      show ?thesis
      proof (cases "stem k1 = stem k2")
        case True
        then have ne: "sub_index k1 \<noteq> sub_index k2" using sub_index_neq Leaf.prems by blast
        let ?L = "Leaf st vs"
        let ?i1 = "sub_index k1" and ?i2 = "sub_index k2"
        have t1: "take d st = take d (stem k1)" using p1 by simp
        have t2: "take d st = take d (stem k2)" using p1 st by simp
        have e21: "stem k2 = stem k1" using True by simp
        have L1: "node_set ?L k1 d v1
            = split_leaf st ?L (stem k1) (Leaf (stem k1) (no_values(?i1 := v1))) d"
          using s1 by (simp add: new_leaf_def)
        have L2: "node_set ?L k2 d v2
            = split_leaf st ?L (stem k2) (Leaf (stem k2) (no_values(?i2 := v2))) d"
          using s2 by (simp add: new_leaf_def)
        have A: "node_set (split_leaf st ?L (stem k1) (Leaf (stem k1) (no_values(?i1 := v1))) d) k2 d v2
            = split_leaf st ?L (stem k1) (Leaf (stem k1) (no_values(?i1 := v1, ?i2 := v2))) d"
          using p1 l1 s1 t1 e21 by (intro split_leaf_set_new) blast+
        have B: "node_set (split_leaf st ?L (stem k2) (Leaf (stem k2) (no_values(?i2 := v2))) d) k1 d v1
            = split_leaf st ?L (stem k2) (Leaf (stem k2) (no_values(?i2 := v2, ?i1 := v1))) d"
          using p1 l2 s2 t2 True by (intro split_leaf_set_new) blast+
        have C: "no_values(?i1 := v1, ?i2 := v2) = no_values(?i2 := v2, ?i1 := v1)"
          using ne by (rule fun_upd_twist)
        have "node_set (node_set ?L k1 d v1) k2 d v2
            = split_leaf st ?L (stem k1) (Leaf (stem k1) (no_values(?i1 := v1, ?i2 := v2))) d"
          unfolding L1 by (rule A)
        also have "\<dots> = split_leaf st ?L (stem k2) (Leaf (stem k2) (no_values(?i2 := v2, ?i1 := v1))) d"
          unfolding C True ..
        also have "\<dots> = node_set (node_set ?L k2 d v2) k1 d v1"
          unfolding L2 by (rule B [symmetric])
        finally show ?thesis .
      next
        case False
        then show ?thesis
          using s1 s2 split_leaf_three [of st k1 k2 d vs v1 v2] p1 st Leaf.prems by simp
      qed
    qed
  qed
qed

lemma split_leaf_not_Empty: "split_leaf so old sn new d \<noteq> Empty"
  by (subst split_leaf.simps) simp

lemma node_set_not_Empty: "n \<noteq> Empty \<Longrightarrow> node_set n k d v \<noteq> Empty"
  by (cases n) (simp_all add: split_leaf_not_Empty)

lemma trie_Set_alt:
  "trie_Set t k v
     = t\<lparr>root := node_set (case root t of Empty \<Rightarrow> Inner no_children | n \<Rightarrow> n) k 0 v\<rparr>"
  by (cases "root t") (simp_all add: trie_Set_def)

lemma start_node_id: "n \<noteq> Empty \<Longrightarrow> (case n of Empty \<Rightarrow> Inner no_children | m \<Rightarrow> m) = n"
  by (cases n) simp_all

lemma trie_Set_twice:
  "trie_Set (trie_Set t k1 v1) k2 v2
     = t\<lparr>root := node_set (node_set (case root t of Empty \<Rightarrow> Inner no_children | n \<Rightarrow> n)
                                  k1 0 v1) k2 0 v2\<rparr>"
proof -
  let ?s = "case root t of Empty \<Rightarrow> Inner no_children | n \<Rightarrow> n"
  have "?s \<noteq> Empty" by (cases "root t") simp_all
  then have "node_set ?s k1 0 v1 \<noteq> Empty" by (rule node_set_not_Empty)
  then have e: "(case node_set ?s k1 0 v1 of Empty \<Rightarrow> Inner no_children | m \<Rightarrow> m)
      = node_set ?s k1 0 v1"
    by (rule start_node_id)
  have "trie_Set (trie_Set t k1 v1) k2 v2
      = (t\<lparr>root := node_set ?s k1 0 v1\<rparr>)\<lparr>root := node_set
            (case root (t\<lparr>root := node_set ?s k1 0 v1\<rparr>) of Empty \<Rightarrow> Inner no_children | n \<Rightarrow> n)
            k2 0 v2\<rparr>"
    by (simp only: trie_Set_alt)
  also have "\<dots> = t\<lparr>root := node_set (node_set ?s k1 0 v1) k2 0 v2\<rparr>"
    using e by simp
  finally show ?thesis .
qed

lemma trie_Set_commute:
  assumes "wf (root t) []" "length k1 = 32" "length k2 = 32" "k1 = k2 \<longrightarrow> v1 = v2"
  shows "trie_Set (trie_Set t k1 v1) k2 v2 = trie_Set (trie_Set t k2 v2) k1 v1"
proof (cases "k1 = k2")
  case True
  with assms show ?thesis by simp
next
  case False
  let ?s = "case root t of Empty \<Rightarrow> Inner no_children | n \<Rightarrow> n"
  have "wf ?s (take 0 k1)" using wf_start [OF assms(1)] by simp
  then have "node_set (node_set ?s k1 0 v1) k2 0 v2 = node_set (node_set ?s k2 0 v2) k1 0 v1"
    using assms(2,3) False by (intro node_set_commute) simp_all
  then show ?thesis by (simp only: trie_Set_twice)
qed

lemma writes_Cons: "writes ((k, v) # ws) = foldl (\<lambda>t (k, v). trie_Set t k v) (trie_Set empty_trie k v) ws"
  by (simp add: writes_def)

lemma foldl_Set_wf:
  "wf (root t) [] \<Longrightarrow> \<forall>(k, v) \<in> set ws. length k = 32
    \<Longrightarrow> wf (root (foldl (\<lambda>t (k, v). trie_Set t k v) t ws)) []"
proof (induction ws arbitrary: t)
  case Nil
  then show ?case by simp
next
  case (Cons x xs)
  then show ?case by (cases x) (simp add: trie_Set_wf)
qed

lemma foldl_Set_move_front:
  assumes "wf (root t) []" "length k = 32" "\<forall>(k', v') \<in> set as. length k' = 32"
    "\<forall>(k', v') \<in> set as. k' = k \<longrightarrow> v' = v"
  shows "foldl (\<lambda>t (k, v). trie_Set t k v) t (as @ [(k, v)])
       = foldl (\<lambda>t (k, v). trie_Set t k v) t ((k, v) # as)"
  using assms
proof (induction as arbitrary: t)
  case Nil
  then show ?case by simp
next
  case (Cons a as)
  obtain ka va where a: "a = (ka, va)" by (cases a)
  have la: "length ka = 32" and ca: "ka = k \<longrightarrow> va = v" using Cons.prems a by simp_all
  have w: "wf (root (trie_Set t ka va)) []" using Cons.prems(1) la by (rule trie_Set_wf)
  have "foldl (\<lambda>t (k, v). trie_Set t k v) (trie_Set t ka va) (as @ [(k, v)])
      = foldl (\<lambda>t (k, v). trie_Set t k v) (trie_Set t ka va) ((k, v) # as)"
    using Cons.IH [OF w] Cons.prems by simp
  moreover have "trie_Set (trie_Set t ka va) k v = trie_Set (trie_Set t k v) ka va"
    using Cons.prems(1) la Cons.prems(2) ca by (rule trie_Set_commute)
  ultimately show ?case using a by simp
qed

lemma foldl_Set_perm:
  assumes "mset ws = mset ws'" "wf (root t) []" "\<forall>(k, v) \<in> set ws. length k = 32"
    "\<forall>(k, v) \<in> set ws. \<forall>(k', v') \<in> set ws. k = k' \<longrightarrow> v = v'"
  shows "foldl (\<lambda>t (k, v). trie_Set t k v) t ws = foldl (\<lambda>t (k, v). trie_Set t k v) t ws'"
  using assms
proof (induction ws arbitrary: ws' t)
  case Nil
  then show ?case by simp
next
  case (Cons x xs)
  obtain k v where x: "x = (k, v)" by (cases x)
  have "x \<in> set ws'" using Cons.prems(1) by (metis list.set_intros(1) mset_eq_setD)
  then obtain as bs where ws': "ws' = as @ x # bs" by (meson split_list)
  have m: "mset xs = mset (as @ bs)" using Cons.prems(1) ws' by simp
  have sub: "set as \<subseteq> set (x # xs)"
    using Cons.prems(1) ws' mset_eq_setD by fastforce
  have lk: "length k = 32" using Cons.prems(3) x by simp
  have las: "\<forall>(k', v') \<in> set as. length k' = 32" using Cons.prems(3) sub by auto
  have cas: "\<forall>(k', v') \<in> set as. k' = k \<longrightarrow> v' = v"
    using Cons.prems(4) sub x by fastforce
  have w: "wf (root (trie_Set t k v)) []" using Cons.prems(2) lk by (rule trie_Set_wf)
  have "foldl (\<lambda>t (k, v). trie_Set t k v) t ws'
      = foldl (\<lambda>t (k, v). trie_Set t k v) (foldl (\<lambda>t (k, v). trie_Set t k v) t (as @ [(k, v)])) bs"
    using ws' x by simp
  also have "\<dots> = foldl (\<lambda>t (k, v). trie_Set t k v) (foldl (\<lambda>t (k, v). trie_Set t k v) t ((k, v) # as)) bs"
    using foldl_Set_move_front [OF Cons.prems(2) lk las cas] by simp
  also have "\<dots> = foldl (\<lambda>t (k, v). trie_Set t k v) (trie_Set t k v) (as @ bs)"
    by simp
  also have "\<dots> = foldl (\<lambda>t (k, v). trie_Set t k v) (trie_Set t k v) xs"
  proof -
    have f3: "\<forall>(k, v) \<in> set xs. length k = 32" using Cons.prems(3) by simp
    have f4: "\<forall>(k, v) \<in> set xs. \<forall>(k', v') \<in> set xs. k = k' \<longrightarrow> v = v'"
      using Cons.prems(4) by fastforce
    show ?thesis using Cons.IH [OF m w f3 f4] by simp
  qed
  finally show ?case using x by simp
qed

section \<open>Root commitments\<close>

lemma Commit_zero: "Commit sch (\<lambda>_. 0) = 0"
  by (simp add: Commit_sum)

lemma Commit_single: "Commit sch ((\<lambda>_. 0)(i := x)) = (x * gens sch i) mod fmod sch"
  using Commit_upd [of sch "\<lambda>_. 0" i x] by (simp add: Commit_zero)

lemma be_nat_Cons: "be_nat (b # bs) = unat b * 256 ^ length bs + be_nat bs"
proof (induction bs rule: rev_induct)
  case Nil
  then show ?case by (simp add: be_nat_def)
next
  case (snoc c cs)
  have "be_nat (b # cs @ [c]) = be_nat ((b # cs) @ [c])" by simp
  also have "\<dots> = be_nat (b # cs) * 256 + unat c" by (rule be_nat_snoc)
  finally show ?case using snoc by (simp add: be_nat_snoc algebra_simps)
qed

lemma be_nat_zeros: "be_nat (replicate n 0) = 0"
  using be_nat_replicate_zero [of n "[]"] by (simp add: be_nat_def)

lemma low_half_zero: "low_half sch zero_value = 0"
  by (simp add: low_half_def zero_value_def be_nat_zeros)

lemma high_half_zero: "high_half sch zero_value = 0"
  by (simp add: high_half_def zero_value_def be_nat_zeros)

lemma node_commit_Inner_single:
  assumes "to_scalar sch Identity = 0"
  shows "node_commit sch (Inner (no_children(b := c)))
       = (to_scalar sch (node_commit sch c) * gens sch b) mod fmod sch"
proof -
  have "(\<lambda>i. to_scalar sch (node_commit sch ((no_children(b := c)) i)))
      = (\<lambda>_. 0)(b := to_scalar sch (node_commit sch c))"
    using assms by (auto simp: fun_eq_iff no_children_def)
  then show ?thesis by (simp add: Commit_single del: fun_upd_apply)
qed

lemma node_commit_Leaf_single:
  "node_commit sch (Leaf st (no_values(b := v)))
     = leaf_rule sch st ((low_half sch v * gens sch b) mod fmod sch)
                        ((high_half sch v * gens sch b) mod fmod sch)"
proof -
  have "(\<lambda>i. low_half sch ((no_values(b := v)) i)) = (\<lambda>_. 0)(b := low_half sch v)"
    by (auto simp: fun_eq_iff no_values_def low_half_zero)
  moreover have "(\<lambda>i. high_half sch ((no_values(b := v)) i)) = (\<lambda>_. 0)(b := high_half sch v)"
    by (auto simp: fun_eq_iff no_values_def high_half_zero)
  ultimately show ?thesis by (simp add: Commit_single del: fun_upd_apply)
qed

lemma writes_Key_1_twice:
  "writes [(Key_1, v), (Key_1, w)] = \<lparr>root = Inner (no_children(1 := Leaf (stem Key_1) (no_values(0 := w))))\<rparr>"
  by (simp add: writes_def trie_Set_def empty_trie_def new_leaf_def Key_1_def sub_index_def
        no_children_def)

lemma single_leaf_commit:
  assumes "to_scalar sch Identity = 0"
  shows "trie_Commit sch \<lparr>root = Inner (no_children(b := Leaf st (no_values(c := w))))\<rparr>
       = (to_scalar sch (leaf_rule sch st ((low_half sch w * gens sch c) mod fmod sch)
                                          ((high_half sch w * gens sch c) mod fmod sch))
            * gens sch b) mod fmod sch"
proof -
  have "trie_Commit sch \<lparr>root = Inner (no_children(b := Leaf st (no_values(c := w))))\<rparr>
      = node_commit sch (Inner (no_children(b := Leaf st (no_values(c := w)))))"
    by (simp add: trie_Commit_def del: node_commit.simps)
  also have "\<dots> = (to_scalar sch (node_commit sch (Leaf st (no_values(c := w)))) * gens sch b)
                      mod fmod sch"
    using assms by (rule node_commit_Inner_single)
  finally show ?thesis by (simp only: node_commit_Leaf_single)
qed

lemma demo_to_scalar: "to_scalar demo_scheme Identity = 0"
  by (simp add: demo_scheme_def Identity_def)

lemma demo_commit_Key_1_twice:
  "trie_Commit demo_scheme (writes [(Key_1, v), (Key_1, w)])
     = (low_half demo_scheme w + 2 * high_half demo_scheme w) mod 65537 * 2 mod 65537"
proof -
  have g0: "gens demo_scheme 0 = 1" and g1: "gens demo_scheme 1 = 2"
    and p: "fmod demo_scheme = 65537"
    and ts: "\<And>c. to_scalar demo_scheme c = c"
    and lr: "\<And>st c1 c2. leaf_rule demo_scheme st c1 c2 = (c1 + 2 * c2) mod 65537"
    by (simp_all add: demo_scheme_def)
  have l: "low_half demo_scheme w mod 65537 = low_half demo_scheme w"
    and h: "high_half demo_scheme w mod 65537 = high_half demo_scheme w"
    by (simp_all add: low_half_def high_half_def p)
  show ?thesis
    unfolding writes_Key_1_twice single_leaf_commit [OF demo_to_scalar]
    by (simp only: g0 g1 p ts lr l h mult_1_right mult.commute [of _ 2])
qed

lemma low_half_Value_1: "low_half demo_scheme Value_1 = 65281"
  by (simp add: low_half_def Value_1_def be_nat_Cons be_nat_zeros demo_scheme_def)

lemma low_half_Value_2: "low_half demo_scheme Value_2 = 65025"
  by (simp add: low_half_def Value_2_def be_nat_Cons be_nat_zeros demo_scheme_def)

lemma high_half_Value_1: "high_half demo_scheme Value_1 = 0"
  by (simp add: high_half_def Value_1_def be_nat_zeros demo_scheme_def)

lemma high_half_Value_2: "high_half demo_scheme Value_2 = 0"
  by (simp add: high_half_def Value_2_def be_nat_zeros demo_scheme_def)

text \<open>
  Claim C7, as stated, fails: when a multiset of writes holds two values for one key,
  the later write wins, and two orders of the same multiset leave different values and
  different root commitments.
\<close>

theorem Commit_depends_on_write_order:
  "mset [(Key_1, Value_1), (Key_1, Value_2)] = mset [(Key_1, Value_2), (Key_1, Value_1)] \<and>
   trie_Commit demo_scheme (writes [(Key_1, Value_1), (Key_1, Value_2)])
     \<noteq> trie_Commit demo_scheme (writes [(Key_1, Value_2), (Key_1, Value_1)])"
  by (simp add: demo_commit_Key_1_twice low_half_Value_1 low_half_Value_2 high_half_Value_1
        high_half_Value_2 add_mset_commute)

text \<open>
  Claim C7, amended. For every multiset of writes to 32-byte keys that holds at most
  one value for each key, the writes applied by \<open>Set\<close> in any two orders give equal
  root commitments.
\<close>

theorem Commit_order_independent:
  "mset ws = mset ws' \<Longrightarrow> (\<forall>(k, v) \<in> set ws. length k = 32) \<Longrightarrow>
   (\<forall>(k, v) \<in> set ws. \<forall>(k', v') \<in> set ws. k = k' \<longrightarrow> v = v') \<Longrightarrow>
   trie_Commit sch (writes ws) = trie_Commit sch (writes ws')"
  using foldl_Set_perm [of ws ws' empty_trie]
  by (simp add: writes_def empty_trie_def)

theorem Commit_order_independent_witness:
  "trie_Commit demo_scheme (writes [(Key_1, Value_1), (Key_2, Value_2), (Key_1, Value_1)])
     = trie_Commit demo_scheme (writes [(Key_2, Value_2), (Key_1, Value_1), (Key_1, Value_1)])"
  using Commit_order_independent [of "[(Key_1, Value_1), (Key_2, Value_2), (Key_1, Value_1)]"
      "[(Key_2, Value_2), (Key_1, Value_1), (Key_1, Value_1)]" demo_scheme]
  by (simp add: Key_1_def Key_2_def add_mset_commute)

section \<open>The commitment of an all-zero trie\<close>

lemma split_leaf_all_zero:
  "all_zero old \<Longrightarrow> all_zero new \<Longrightarrow> all_zero (split_leaf so old sn new d)"
proof (induction so old sn new d rule: split_leaf.induct)
  case (1 so old sn new d)
  show ?case
  proof (cases "d < 31 \<and> so ! d = sn ! d")
    case True
    then have "all_zero (split_leaf so old sn new (Suc d))" using 1 by simp
    then show ?thesis using True
      by (subst split_leaf.simps) (simp add: no_children_def)
  next
    case False
    then show ?thesis using 1
      by (subst split_leaf.simps) (auto simp: no_children_def)
  qed
qed

lemma node_set_all_zero: "all_zero n \<Longrightarrow> all_zero (node_set n k d zero_value)"
proof (induction n arbitrary: d)
  case Empty
  then show ?case by (simp add: new_leaf_def no_values_def)
next
  case (Inner cs)
  then show ?case by simp
next
  case (Leaf st vs)
  have "all_zero (new_leaf k zero_value)" by (simp add: new_leaf_def no_values_def)
  then show ?case using Leaf split_leaf_all_zero [of "Leaf st vs" "new_leaf k zero_value"]
    by simp
qed

lemma trie_Set_all_zero:
  "all_zero (root t) \<Longrightarrow> all_zero (root (trie_Set t k zero_value))"
proof -
  assume a: "all_zero (root t)"
  have "all_zero (case root t of Empty \<Rightarrow> Inner no_children | n \<Rightarrow> n)"
    using a by (cases "root t") (simp_all add: no_children_def)
  then show ?thesis by (simp add: trie_Set_root node_set_all_zero)
qed

lemma writes_all_zero:
  "\<forall>(k, v) \<in> set ws. v = zero_value \<Longrightarrow> all_zero (root (writes ws))"
proof (induction ws rule: rev_induct)
  case Nil
  then show ?case by (simp add: writes_def empty_trie_def)
next
  case (snoc x xs)
  then show ?case by (cases x) (simp add: writes_snoc trie_Set_all_zero)
qed

lemma node_commit_all_zero:
  assumes "to_scalar sch Identity = 0" "\<forall>st. leaf_rule sch st Identity Identity = Identity"
  shows "all_zero n \<Longrightarrow> node_commit sch n = Identity"
proof (induction n)
  case Empty
  then show ?case by simp
next
  case (Inner cs)
  then have "(\<lambda>i. to_scalar sch (node_commit sch (cs i))) = (\<lambda>_. 0)"
    using assms(1) by (auto simp: fun_eq_iff)
  then show ?case by (simp add: Commit_zero Identity_def)
next
  case (Leaf st vs)
  then have "(\<lambda>i. low_half sch (vs i)) = (\<lambda>_. 0)" "(\<lambda>i. high_half sch (vs i)) = (\<lambda>_. 0)"
    by (auto simp: fun_eq_iff low_half_zero high_half_zero)
  then show ?case using assms(2) by (simp add: Commit_zero Identity_def)
qed

text \<open>
  Whether a trie written only with zero values commits to the identity depends on the
  leaf rule of the scheme, which the specification leaves to the implementation. It
  does when the leaf rule gives the identity for two identity halves and
  \<open>ToScalar(identity) = 0\<close>; it does not when the leaf carries an additive tag.
\<close>

lemma all_zero_trie_commit:
  "to_scalar sch Identity = 0 \<Longrightarrow> (\<forall>st. leaf_rule sch st Identity Identity = Identity) \<Longrightarrow>
   (\<forall>(k, v) \<in> set ws. v = zero_value) \<Longrightarrow>
   trie_Commit sch empty_trie = Identity \<and> trie_Commit sch (writes ws) = Identity \<and>
   Compress Identity = replicate 32 0"
  using node_commit_all_zero [of sch "root (writes ws)"] writes_all_zero [of ws]
  by (simp add: trie_Commit_def empty_trie_def Compress_Identity)

lemma writes_Key_1_once:
  "writes [(Key_1, w)] = \<lparr>root = Inner (no_children(1 := Leaf (stem Key_1) (no_values(0 := w))))\<rparr>"
  by (simp add: writes_def trie_Set_def empty_trie_def new_leaf_def Key_1_def sub_index_def
        no_children_def)

lemma tagged_zero_write_commit:
  "to_scalar tagged_scheme Identity = 0 \<and>
   trie_Commit tagged_scheme (writes [(Key_1, zero_value)]) \<noteq> Identity"
proof -
  have ts: "to_scalar tagged_scheme Identity = 0" by (simp add: tagged_scheme_def Identity_def)
  have "trie_Commit tagged_scheme (writes [(Key_1, zero_value)]) = 2"
    unfolding writes_Key_1_once single_leaf_commit [OF ts]
    by (simp add: low_half_zero high_half_zero) (simp add: tagged_scheme_def)
  then show ?thesis using ts by (simp add: Identity_def)
qed

section \<open>What a snapshot part records\<close>

lemma foldl_probe_none:
  "\<forall>k \<in> set ks. trie_Get t k = zero_value \<Longrightarrow> foldl (probe t) e ks = e"
  by (induction ks arbitrary: e) (simp_all add: probe_def)

lemma serialize_address_probes:
  "serialize_address env t e a = foldl (probe t) e (address_keys env a)"
  by (simp add: serialize_address_def address_keys_def Let_def foldl_map)

lemma foldl_concat_map:
  "foldl (\<lambda>e x. foldl f e (g x)) e xs = foldl f e (concat (map g xs))"
  by (induction xs arbitrary: e) simp_all

lemma collect_entries_probes:
  "collect_entries env t = foldl (probe t) [] (sampled_keys env)"
  unfolding collect_entries_def sampled_keys_def
  using foldl_concat_map [of "probe t" "address_keys env" "[]" "[0..<256]"]
  by (simp add: serialize_address_probes [abs_def])

lemma map_of_probe:
  "map_of (probe t e k') k
     = (if k = k' \<and> trie_Get t k' \<noteq> zero_value then Some (trie_Get t k') else map_of e k)"
  by (auto simp: probe_def Let_def update_conv')

lemma map_of_foldl_probe:
  "map_of (foldl (probe t) e ks) k
     = (if k \<in> set ks \<and> trie_Get t k \<noteq> zero_value then Some (trie_Get t k) else map_of e k)"
proof (induction ks arbitrary: e)
  case Nil
  then show ?case by simp
next
  case (Cons a ks)
  show ?case using Cons.IH [of "probe t e a"] by (auto simp: map_of_probe)
qed

lemma PutUint32_zero: "BigEndian_PutUint32 0 = [0, 0, 0, 0]"
proof -
  have "be_bytes 4 0 = replicate 4 0" by (simp add: be_bytes_def map_replicate_const)
  then show ?thesis by (simp add: BigEndian_PutUint32_def eval_nat_numeral)
qed

lemma single_write_collect:
  assumes "\<forall>k' \<in> set (sampled_keys env). length k' = 32" "length k = 32"
    "k \<notin> set (sampled_keys env)"
  shows "collect_entries env (writes [(k, v)]) = []"
proof -
  have "\<forall>k' \<in> set (sampled_keys env). trie_Get (writes [(k, v)]) k' = zero_value"
  proof
    fix k' assume k': "k' \<in> set (sampled_keys env)"
    then have "length k' = 32" "k' \<noteq> k" using assms by auto
    then show "trie_Get (writes [(k, v)]) k' = zero_value"
      using writes_Get [of "[(k, v)]" k'] assms(2) by simp
  qed
  then show ?thesis by (simp add: collect_entries_probes foldl_probe_none)
qed

lemma single_write_serialize:
  assumes "\<forall>k' \<in> set (sampled_keys env). length k' = 32" "length k = 32"
    "k \<notin> set (sampled_keys env)" "trie s = writes [(k, v)]"
  shows "serializeTrie env s = Inr [0, 0, 0, 0]"
  using single_write_collect [OF assms(1-3)] assms(4)
  by (simp add: serializeTrie_def PutUint32_zero)

lemma demo_address_keys:
  "k \<in> set (address_keys demo_env a) \<Longrightarrow> length k = 32 \<and> k ! 1 = 0"
  by (auto simp: address_keys_def demo_env_def Let_def slice_def be_bytes_def nth_append
        nth_list_update)

lemma demo_sampled_keys: "k \<in> set (sampled_keys demo_env) \<Longrightarrow> length k = 32 \<and> k ! 1 = 0"
  using demo_address_keys by (auto simp: sampled_keys_def)

lemma far_key_length: "length (getStorageKey demo_env far_address Key_1) = 32"
  by (simp add: demo_env_def far_address_def Key_1_def slice_def)

lemma far_key_unsampled: "getStorageKey demo_env far_address Key_1 \<notin> set (sampled_keys demo_env)"
proof
  assume "getStorageKey demo_env far_address Key_1 \<in> set (sampled_keys demo_env)"
  then have "getStorageKey demo_env far_address Key_1 ! 1 = 0" using demo_sampled_keys by blast
  then show False by (simp add: demo_env_def far_address_def)
qed

text \<open>
  Claim C2 requires a record \<open>[key][value]\<close> in the part for every key of the trie
  that holds a non-zero value. \<open>serializeTrie\<close> does not enumerate the stored keys:
  the part holds exactly the non-zero values under the keys that its loops probe (basic
  data, code hash, storage slots 0 to 255 and code chunks 0 to 1023 of the 256 addresses
  \<open>[b, 0, \<dots>, 0]\<close>), and no record for any other key, whatever the trie holds there.
\<close>

theorem serializeTrie_covers_sampled_keys_only:
  "serializeTrie env s
     = Inr (BigEndian_PutUint32 (of_nat (length (collect_entries env (trie s))))
            @ concat (map (\<lambda>(k, v). k @ v) (collect_entries env (trie s))))
   \<and> map_of (collect_entries env (trie s)) k
     = (if k \<in> set (sampled_keys env) \<and> trie_Get (trie s) k \<noteq> zero_value
        then Some (trie_Get (trie s) k) else None)"
  by (simp add: serializeTrie_def Let_def collect_entries_probes map_of_foldl_probe)

theorem serializeTrie_covers_sampled_keys_only_witness:
  "trie_Get (writes [(getStorageKey demo_env far_address Key_1, Value_1)])
       (getStorageKey demo_env far_address Key_1) = Value_1
   \<and> Value_1 \<noteq> zero_value
   \<and> map_of (collect_entries demo_env
                (writes [(getStorageKey demo_env far_address Key_1, Value_1)]))
         (getStorageKey demo_env far_address Key_1) = None
   \<and> serializeTrie demo_env
         (newState\<lparr>trie := writes [(getStorageKey demo_env far_address Key_1, Value_1)]\<rparr>)
       = Inr [0, 0, 0, 0]"
proof -
  let ?k = "getStorageKey demo_env far_address Key_1"
  let ?s = "newState\<lparr>trie := writes [(?k, Value_1)]\<rparr>"
  have l: "\<forall>k' \<in> set (sampled_keys demo_env). length k' = 32"
    using demo_sampled_keys by blast
  have g: "trie_Get (writes [(?k, Value_1)]) ?k = Value_1"
    using writes_Get [of "[(?k, Value_1)]" ?k] far_key_length by simp
  have "hd Value_1 \<noteq> hd zero_value" by (simp add: Value_1_def zero_value_def)
  then have z: "Value_1 \<noteq> zero_value" by auto
  have e: "collect_entries demo_env (trie ?s) = []"
    using single_write_collect [OF l far_key_length far_key_unsampled, of Value_1] by simp
  show ?thesis
    using serializeTrie_covers_sampled_keys_only [of demo_env ?s ?k] far_key_unsampled g z e
    by (simp add: PutUint32_zero)
qed

section \<open>Archived states\<close>

lemma Compress_length: "length (Compress c) = 32"
  by (simp add: Compress_def be_bytes_def)

lemma restore_of_empty_part:
  assumes "length c = 32" "c \<noteq> replicate 32 0"
  shows "Restore sch s (vtSnapshot_GetData \<lparr>commitment = c, data = [0, 0, 0, 0]\<rparr>)
       = (Some CommitmentMismatch, s\<lparr>trie := empty_trie\<rparr>)"
  using assms
  by (simp add: Restore_def vtSnapshot_GetData_def vtSnapshot_GetMetaData_def
        vtSnapshot_GetPartData_def copy_into_def PutUint32_length Let_def slice_def
        deserializeTrie_def Uint32_zero empty_trie_hash)

lemma addBlock_first:
  "addBlock (newVtArchive 1000) block snap
     = \<lparr>snapshots = [(block, snap)], maxBlock = block, hasBlocks = True, maxSize = 1000,
        oldestBlock = block\<rparr>"
  by (simp add: addBlock_def newVtArchive_def Let_def)

lemma writes_single:
  "writes [(k, w)]
     = \<lparr>root = Inner (no_children(k ! 0 := Leaf (stem k) (no_values(sub_index k := w))))\<rparr>"
  by (simp add: writes_def trie_Set_def empty_trie_def new_leaf_def no_children_def)

lemma far_key_bytes:
  "getStorageKey demo_env far_address Key_1 ! 0 = 0"
  "sub_index (getStorageKey demo_env far_address Key_1) = 0"
  by (simp_all add: demo_env_def far_address_def Key_1_def sub_index_def slice_def nth_append)

lemma far_trie_commit:
  "trie_Commit demo_scheme (writes [(getStorageKey demo_env far_address Key_1, Value_1)]) = 65281"
proof -
  have g0: "gens demo_scheme 0 = 1"
    and p: "fmod demo_scheme = 65537"
    and ts: "\<And>c. to_scalar demo_scheme c = c"
    and lr: "\<And>st c1 c2. leaf_rule demo_scheme st c1 c2 = (c1 + 2 * c2) mod 65537"
    by (simp_all add: demo_scheme_def)
  show ?thesis
    unfolding writes_single far_key_bytes single_leaf_commit [OF demo_to_scalar]
    by (simp add: g0 p ts lr low_half_Value_1 high_half_Value_1)
qed

lemma far_trie_hash:
  "Compress (trie_Commit demo_scheme (writes [(getStorageKey demo_env far_address Key_1, Value_1)]))
     \<noteq> replicate 32 0"
proof
  assume "Compress (trie_Commit demo_scheme
            (writes [(getStorageKey demo_env far_address Key_1, Value_1)])) = replicate 32 0"
  then have "Compress 65281 ! 31 = replicate 32 (0 :: byte) ! 31" by (simp add: far_trie_commit)
  then show False by (simp add: Compress_def be_bytes_def)
qed

text \<open>
  Claim C9 requires that, after a successful \<open>Apply(block, update)\<close>,
  \<open>GetArchiveState(block)\<close> returns a state with the root hash the state had after that
  \<open>Apply\<close>. When the block writes a non-zero value under a key that \<open>serializeTrie\<close>
  does not probe, the archived snapshot carries the root commitment of the whole trie
  but an empty part, and \<open>GetArchiveState\<close> returns the error of a commitment
  mismatch instead of a state.
\<close>

theorem archived_state_unrestorable:
  assumes "\<forall>k' \<in> set (sampled_keys env). length k' = 32"
    and "length (getStorageKey env a slot) = 32"
    and "getStorageKey env a slot \<notin> set (sampled_keys env)"
    and "Compress (trie_Commit sch (writes [(getStorageKey env a slot, v)])) \<noteq> replicate 32 0"
  shows "fst (Apply sch env newState block
                \<lparr>CreatedAccounts = [], Nonces = [], Balances = [], Slots = [(a, slot, v)],
                 Codes = []\<rparr>) = None
       \<and> GetArchiveState sch
            (snd (Apply sch env newState block
                    \<lparr>CreatedAccounts = [], Nonces = [], Balances = [], Slots = [(a, slot, v)],
                     Codes = []\<rparr>)) block
          = Inl (Wrapped ''failed to restore archived state'' CommitmentMismatch)"
proof -
  let ?k = "getStorageKey env a slot"
  let ?s = "apply_slot env newState (a, slot, v)"
  have t: "trie ?s = writes [(?k, v)]"
    by (simp add: apply_slot_def newState_def writes_def Let_def)
  have ar: "archive ?s = newVtArchive 1000"
    by (simp add: apply_slot_def newState_def Let_def)
  have ser: "serializeTrie env ?s = Inr [0, 0, 0, 0]"
    using assms(1-3) t by (rule single_write_serialize)
  let ?snap = "\<lparr>commitment = Compress (trie_Commit sch (writes [(?k, v)])), data = [0, 0, 0, 0]\<rparr>"
  have cs: "CreateSnapshot sch env ?s = Inr ?snap"
    by (simp add: CreateSnapshot_def ser t)
  have arch: "archiveCurrentState sch env ?s block
      = (None, ?s\<lparr>archive := addBlock (newVtArchive 1000) block ?snap\<rparr>)"
    by (simp add: archiveCurrentState_def cs ar)
  have ap: "Apply sch env newState block
                \<lparr>CreatedAccounts = [], Nonces = [], Balances = [], Slots = [(a, slot, v)],
                 Codes = []\<rparr>
      = (None, ?s\<lparr>archive := addBlock (newVtArchive 1000) block ?snap\<rparr>)"
    by (simp add: Apply_def arch)
  have "GetArchiveState sch (?s\<lparr>archive := addBlock (newVtArchive 1000) block ?snap\<rparr>) block
      = Inl (Wrapped ''failed to restore archived state'' CommitmentMismatch)"
    using restore_of_empty_part [of "Compress (trie_Commit sch (writes [(?k, v)]))"] assms(4)
    by (simp add: GetArchiveState_def getBlock_def addBlock_first Compress_length)
  then show ?thesis by (simp add: ap)
qed

theorem archived_state_unrestorable_witness:
  "fst (Apply demo_scheme demo_env newState 1 far_update) = None
   \<and> GetHash demo_scheme (snd (Apply demo_scheme demo_env newState 1 far_update))
       \<noteq> replicate 32 0
   \<and> GetArchiveState demo_scheme (snd (Apply demo_scheme demo_env newState 1 far_update)) 1
       = Inl (Wrapped ''failed to restore archived state'' CommitmentMismatch)"
proof -
  have l: "\<forall>k' \<in> set (sampled_keys demo_env). length k' = 32"
    using demo_sampled_keys by blast
  have a: "fst (Apply demo_scheme demo_env newState 1 far_update) = None
       \<and> GetArchiveState demo_scheme (snd (Apply demo_scheme demo_env newState 1 far_update)) 1
          = Inl (Wrapped ''failed to restore archived state'' CommitmentMismatch)"
    unfolding far_update_def
    using l far_key_length far_key_unsampled far_trie_hash
    by (rule archived_state_unrestorable)
  have "trie (snd (Apply demo_scheme demo_env newState 1 far_update))
      = writes [(getStorageKey demo_env far_address Key_1, Value_1)]"
    by (simp add: Apply_def far_update_def archiveCurrentState_def CreateSnapshot_def
          serializeTrie_def apply_slot_def newState_def writes_def Let_def)
  then have "GetHash demo_scheme (snd (Apply demo_scheme demo_env newState 1 far_update))
      \<noteq> replicate 32 0"
    using far_trie_hash by (simp add: GetHash_def)
  then show ?thesis using a by simp
qed

end
